theory Spec2Isabelle
  imports Complex_Main "HOL-Library.Word"
begin

section \<open>The streaming audio player of audio-recorder.js (class AudioStreamer)\<close>

text \<open>
  The class is embedded as a record of its fields and one HOL function for each method.
  A method reads the outside world only through the audio clock
  (\<^verbatim>\<open>this.context.currentTime\<close>) and through the outcome of a call to the speech
  recognition engine; both are passed in as an \<open>env\<close>, read once for each synchronous
  run of a method. What a method hands to the browser (buffer sources given to
  \<^verbatim>\<open>source.start\<close>, \<^verbatim>\<open>setTimeout\<close> callbacks, calls of the engine, calls of
  \<^verbatim>\<open>onComplete\<close>, automation of the gain node) is appended to logs that are fields of
  the same record.

  Numbers. A chunk is a byte array that covers its whole ArrayBuffer, so that
  \<^verbatim>\<open>new DataView(chunk.buffer)\<close> reads the chunk: the method takes its length as a
  number of bytes (\<^verbatim>\<open>chunk.length / 2\<close> samples, read at byte offset \<^verbatim>\<open>i * 2\<close>),
  whatever type its doc comment names. A sample is \<^verbatim>\<open>int16 / 32768\<close>, a dyadic rational
  with at most 16 significant bits, which a Float32Array element holds exactly; samples
  are therefore exact reals. Clock values, durations and timer delays are JavaScript
  doubles; they are modelled as reals, the arithmetic of the source written as it stands.

  The browser. A try block of the source is a branch of the model: \<^verbatim>\<open>getInt16\<close> outside
  the buffer, and the engine's start and stop, which may throw. The other calls of the
  Web Audio interface are made with arguments they accept (a start time that is not
  negative, a buffer that is not empty, see the last section) and have no error result.
  \<^verbatim>\<open>onComplete\<close> is set by the owner of the streamer; its calls are counted, and it is
  taken not to call back into the streamer.
\<close>

subsection \<open>Data\<close>

type_synonym byte = "8 word"
type_synonym frame = "real list"

datatype js_error = RangeError

datatype callback = CbScheduleNextBuffer | CbRestartRecognition | CbSwapGainNode

record timer =
  delay :: real
  action :: callback

datatype engine_call = StartOk | StartThrew | StopOk | StopThrew

datatype gain_event = LinearRampToValueAtTime real real | SetValueAtTime real real

record gain_node =
  gainId :: nat
  automation :: "gain_event list"

text \<open>
  An AudioBufferSourceNode that has been given to \<^verbatim>\<open>start\<close>. \<open>onended\<close> tells that
  the end-of-queue handler of lines 471-476 is installed on it and has not been set to
  null since; \<open>played\<close> that the browser has delivered its \<^verbatim>\<open>ended\<close> event.
\<close>

record buffer_source =
  sourceId :: nat
  buffer :: frame
  startTime :: real
  onended :: bool
  toGain :: nat
  toProcessor :: bool
  played :: bool

record env =
  currentTime :: real
  startThrows :: bool
  stopThrows :: bool
  contextSuspended :: bool
  resumeFulfils :: bool

text \<open>
  The fields of the class, in the constructor's order, then the logs. \<open>checkInterval\<close> is
  left out: the class assigns it null only, so the branch of \<^verbatim>\<open>stop\<close> that clears it
  never runs. \<open>speechRecognizer\<close> and \<open>processor\<close> are kept as "is not null".
\<close>

record streamer =
  audioQueue :: "frame list"
  isPlaying :: bool
  sampleRate :: real
  bufferSize :: nat
  processingBuffer :: frame
  scheduledTime :: real
  gainNode :: gain_node
  isStreamComplete :: bool
  initialBufferTime :: real
  endOfQueueAudioSource :: "nat option"
  speechRecognizer :: bool
  isRecognitionActive :: bool
  processor :: bool
  started :: "buffer_source list"
  timers :: "timer list"
  engineCalls :: "engine_call list"
  completions :: nat

text \<open>
  The constructor. \<open>rate\<close> is \<^verbatim>\<open>CONFIG.AUDIO.OUTPUT_SAMPLE_RATE\<close>, a constant of a
  configuration module, and \<open>recognizer\<close> tells whether the browser offers
  \<^verbatim>\<open>SpeechRecognition\<close> (initSpeechRecognition).
\<close>

definition newAudioStreamer :: "real \<Rightarrow> bool \<Rightarrow> streamer" where
  "newAudioStreamer rate recognizer =
     \<lparr>audioQueue = [], isPlaying = False, sampleRate = rate, bufferSize = 7680,
      processingBuffer = [], scheduledTime = 0,
      gainNode = \<lparr>gainId = 0, automation = []\<rparr>,
      isStreamComplete = False, initialBufferTime = 1 / 10,
      endOfQueueAudioSource = None, speechRecognizer = recognizer,
      isRecognitionActive = False, processor = False,
      started = [], timers = [], engineCalls = [], completions = 0\<rparr>"

subsection \<open>addPCM16: conversion of the chunk (lines 404-414)\<close>

text \<open>
  \<^verbatim>\<open>DataView.getInt16(byteOffset, true)\<close>: a RangeError when the two bytes do not lie
  inside the buffer, else the little-endian two's complement value.
\<close>

definition getInt16 :: "byte list \<Rightarrow> nat \<Rightarrow> js_error + int" where
  "getInt16 buf byteOffset =
     (if length buf < byteOffset + 2 then Inl RangeError
      else (let u = uint (buf ! byteOffset) + 256 * uint (buf ! (byteOffset + 1))
            in Inr (if u < 32768 then u else u - 65536)))"

text \<open>A write to a typed array outside its length is ignored.\<close>

definition typedSet :: "real list \<Rightarrow> nat \<Rightarrow> real \<Rightarrow> real list" where
  "typedSet a i v = (if i < length a then a[i := v] else a)"

text \<open>
  The loop of lines 407-414. Its test \<^verbatim>\<open>i < chunk.length / 2\<close> compares with a number
  that is not rounded, so it is \<open>2 * i < length chunk\<close>. The catch clause logs the error
  and the loop goes on; the second component collects what was logged.
\<close>

function convertLoop ::
  "byte list \<Rightarrow> nat \<Rightarrow> real list \<Rightarrow> js_error list \<Rightarrow> real list \<times> js_error list" where
  "convertLoop chunk i float32Array logged =
     (if 2 * i < length chunk
      then (case getInt16 chunk (i * 2) of
              Inr int16 \<Rightarrow>
                convertLoop chunk (i + 1) (typedSet float32Array i (real_of_int int16 / 32768)) logged
            | Inl e \<Rightarrow> convertLoop chunk (i + 1) float32Array (logged @ [e]))
      else (float32Array, logged))"
  by pat_completeness auto
termination
  by (relation "measure (\<lambda>(chunk, i, a, l). length chunk - 2 * i)") auto

text \<open>
  \<^verbatim>\<open>new Float32Array(chunk.length / 2)\<close> truncates its argument and fills with zeros.
\<close>

definition pcm16ToFloat32 :: "byte list \<Rightarrow> real list \<times> js_error list" where
  "pcm16ToFloat32 chunk = convertLoop chunk 0 (replicate (length chunk div 2) 0) []"

subsection \<open>addPCM16: the accumulation buffer and the frame queue (lines 416-425)\<close>

text \<open>
  The loop has no bound of its own: with \<open>bufferSize = 0\<close> it pushes empty frames for
  ever, which is the value \<open>None\<close>.
\<close>

partial_function (option) rebufferLoop :: "streamer \<Rightarrow> streamer option" where
  "rebufferLoop s =
     (if bufferSize s \<le> length (processingBuffer s)
      then rebufferLoop
             (s\<lparr>audioQueue := audioQueue s @ [take (bufferSize s) (processingBuffer s)],
                processingBuffer := drop (bufferSize s) (processingBuffer s)\<rparr>)
      else Some s)"

subsection \<open>scheduleNextBuffer (lines 451-505)\<close>

definition SCHEDULE_AHEAD_TIME :: real where
  "SCHEDULE_AHEAD_TIME = 2 / 10"

text \<open>\<^verbatim>\<open>audioBuffer.duration\<close> of the buffer made by createAudioBuffer.\<close>

definition duration :: "streamer \<Rightarrow> frame \<Rightarrow> real" where
  "duration s audioData = real (length audioData) / sampleRate s"

text \<open>\<^verbatim>\<open>this.endOfQueueAudioSource.onended = null\<close>, when a source is tracked.\<close>

definition disarm :: "nat option \<Rightarrow> buffer_source list \<Rightarrow> buffer_source list" where
  "disarm tracked srcs =
     (case tracked of
        None \<Rightarrow> srcs
      | Some k \<Rightarrow> map (\<lambda>src. if sourceId src = k then src\<lparr>onended := False\<rparr> else src) srcs)"

text \<open>
  The body of the while loop (lines 462-493). The new source is named by its position in
  the log of started sources.
\<close>

definition scheduleHead :: "env \<Rightarrow> streamer \<Rightarrow> streamer" where
  "scheduleHead e s =
     (case audioQueue s of
        [] \<Rightarrow> s
      | audioData # rest \<Rightarrow>
          (let source = length (started s);
               startT = max (scheduledTime s) (currentTime e);
               node = \<lparr>sourceId = source, buffer = audioData, startTime = startT,
                       onended = (rest = []), toGain = gainId (gainNode s),
                       toProcessor = processor s, played = False\<rparr>
           in s\<lparr>audioQueue := rest,
                endOfQueueAudioSource :=
                  (if rest = [] then Some source else endOfQueueAudioSource s),
                started :=
                  (if rest = [] then disarm (endOfQueueAudioSource s) (started s)
                   else started s) @ [node],
                scheduledTime := startT + duration s audioData\<rparr>))"

definition scheduleCond :: "env \<Rightarrow> streamer \<Rightarrow> bool" where
  "scheduleCond e s \<longleftrightarrow>
     audioQueue s \<noteq> [] \<and> scheduledTime s < currentTime e + SCHEDULE_AHEAD_TIME"

function scheduleLoop :: "env \<Rightarrow> streamer \<Rightarrow> streamer" where
  "scheduleLoop e s = (if scheduleCond e s then scheduleLoop e (scheduleHead e s) else s)"
  by pat_completeness auto
termination
  by (relation "measure (\<lambda>(e, s). length (audioQueue s))")
     (auto simp: scheduleCond_def scheduleHead_def Let_def split: list.splits)

text \<open>Lines 496-504: the end of the pass.\<close>

definition rearmDelay :: "env \<Rightarrow> streamer \<Rightarrow> real" where
  "rearmDelay e s = max 0 ((scheduledTime s - currentTime e) * 1000 - 50)"

definition finishPass :: "env \<Rightarrow> streamer \<Rightarrow> streamer" where
  "finishPass e s =
     (if audioQueue s = [] \<and> processingBuffer s = []
      then (if isStreamComplete s then s\<lparr>isPlaying := False\<rparr> else s)
      else s\<lparr>timers := timers s @ [\<lparr>delay = rearmDelay e s, action = CbScheduleNextBuffer\<rparr>]\<rparr>)"

definition scheduleNextBuffer :: "env \<Rightarrow> streamer \<Rightarrow> streamer" where
  "scheduleNextBuffer e s = finishPass e (scheduleLoop e s)"

subsection \<open>addPCM16 (lines 388-433)\<close>

text \<open>
  Lines 392-402: the engine is started when audio arrives and the flag is down; a start
  that throws is caught and leaves the flag down.
\<close>

definition startRecognition :: "env \<Rightarrow> streamer \<Rightarrow> streamer" where
  "startRecognition e s =
     (if speechRecognizer s \<and> \<not> isRecognitionActive s
      then (if startThrows e
            then s\<lparr>engineCalls := engineCalls s @ [StartThrew], isRecognitionActive := False\<rparr>
            else s\<lparr>engineCalls := engineCalls s @ [StartOk], isRecognitionActive := True\<rparr>)
      else s)"

text \<open>Lines 404-425: conversion, append to the accumulation buffer, cut into frames.\<close>

definition rebuffer :: "byte list \<Rightarrow> streamer \<Rightarrow> streamer option" where
  "rebuffer chunk s =
     (let float32Array = fst (pcm16ToFloat32 chunk)
      in rebufferLoop (s\<lparr>processingBuffer := processingBuffer s @ float32Array\<rparr>))"

text \<open>Lines 427-432: the first scheduling pass of a session that is not playing.\<close>

definition startPlayback :: "env \<Rightarrow> streamer \<Rightarrow> streamer" where
  "startPlayback e s =
     (if \<not> isPlaying s
      then scheduleNextBuffer e
             (s\<lparr>isPlaying := True, scheduledTime := currentTime e + initialBufferTime s\<rparr>)
      else s)"

definition addPCM16 :: "env \<Rightarrow> byte list \<Rightarrow> streamer \<Rightarrow> streamer option" where
  "addPCM16 e chunk s =
     (case rebuffer chunk (startRecognition e s) of
        None \<Rightarrow> None
      | Some s' \<Rightarrow> Some (startPlayback e s'))"

subsection \<open>complete, stop, resume (lines 511-574)\<close>

text \<open>
  \<^verbatim>\<open>complete\<close> is named \<open>completeStream\<close> here, \<open>complete\<close> being a constant of the
  library.
\<close>

definition completeStream :: "env \<Rightarrow> streamer \<Rightarrow> streamer" where
  "completeStream e s =
     (let s1 = s\<lparr>isStreamComplete := True\<rparr>
      in if processingBuffer s1 \<noteq> []
         then (let s2 = s1\<lparr>audioQueue := audioQueue s1 @ [processingBuffer s1],
                            processingBuffer := []\<rparr>
               in if isPlaying s2 then scheduleNextBuffer e s2 else s2)
         else s1\<lparr>completions := completions s1 + 1\<rparr>)"

text \<open>
  \<^verbatim>\<open>stop\<close>: the engine's stop is inside a try; when it throws the flag is not lowered.
\<close>

definition stop :: "env \<Rightarrow> streamer \<Rightarrow> streamer" where
  "stop e s =
     (let s1 = s\<lparr>isPlaying := False, isStreamComplete := True, audioQueue := [],
                  processingBuffer := [], scheduledTime := currentTime e\<rparr>;
          s2 = s1\<lparr>gainNode := (gainNode s1)
                     \<lparr>automation := automation (gainNode s1) @
                        [LinearRampToValueAtTime 0 (currentTime e + 1 / 10)]\<rparr>,
                  timers := timers s1 @ [\<lparr>delay = 200, action = CbSwapGainNode\<rparr>]\<rparr>
      in if speechRecognizer s2 \<and> isRecognitionActive s2
         then (if stopThrows e
               then s2\<lparr>engineCalls := engineCalls s2 @ [StopThrew]\<rparr>
               else s2\<lparr>engineCalls := engineCalls s2 @ [StopOk], isRecognitionActive := False\<rparr>)
         else s2)"

text \<open>
  \<^verbatim>\<open>resume\<close> is async: on a suspended context it waits for \<^verbatim>\<open>context.resume()\<close>, and
  the three assignments run only when that promise fulfils; \<open>None\<close> is the call that
  never gets past its await. The clock is read after the await.
\<close>

definition resume :: "env \<Rightarrow> streamer \<Rightarrow> streamer option" where
  "resume e s =
     (if contextSuspended e \<and> \<not> resumeFulfils e then None
      else Some (s\<lparr>isStreamComplete := False,
                   scheduledTime := currentTime e + initialBufferTime s,
                   gainNode := (gainNode s)
                     \<lparr>automation := automation (gainNode s) @
                        [SetValueAtTime 1 (currentTime e)]\<rparr>\<rparr>))"

subsection \<open>The recognition engine (lines 277-320)\<close>

definition restartRecognition :: "streamer \<Rightarrow> streamer" where
  "restartRecognition s =
     (if isRecognitionActive s then s
      else s\<lparr>timers := timers s @ [\<lparr>delay = 100, action = CbRestartRecognition\<rparr>]\<rparr>)"

text \<open>
  The callback of lines 309-315. It runs from a timer, outside the try of
  restartRecognition: a start that throws ends the callback before the flag is set.
\<close>

definition restartTimeout :: "env \<Rightarrow> streamer \<Rightarrow> streamer" where
  "restartTimeout e s =
     (if \<not> isRecognitionActive s
      then (if \<not> speechRecognizer s then s
            else if startThrows e then s\<lparr>engineCalls := engineCalls s @ [StartThrew]\<rparr>
            else s\<lparr>engineCalls := engineCalls s @ [StartOk], isRecognitionActive := True\<rparr>)
      else s)"

text \<open>The engine's error event; \<open>noSpeech\<close> is \<^verbatim>\<open>event.error === 'no-speech'\<close>.\<close>

definition recognizerOnerror :: "bool \<Rightarrow> streamer \<Rightarrow> streamer" where
  "recognizerOnerror noSpeech s =
     (let s1 = (if noSpeech then restartRecognition s else s)
      in s1\<lparr>isRecognitionActive := False\<rparr>)"

definition recognizerOnend :: "streamer \<Rightarrow> streamer" where
  "recognizerOnend s =
     (let s1 = s\<lparr>isRecognitionActive := False\<rparr>
      in if isPlaying s1 \<and> \<not> isStreamComplete s1 then restartRecognition s1 else s1)"

subsection \<open>Callbacks run by the browser\<close>

text \<open>The callback of lines 525-529: a new gain node replaces the old one.\<close>

definition swapGainTimeout :: "streamer \<Rightarrow> streamer" where
  "swapGainTimeout s = s\<lparr>gainNode := \<lparr>gainId = gainId (gainNode s) + 1, automation = []\<rparr>\<rparr>"

definition runCallback :: "env \<Rightarrow> callback \<Rightarrow> streamer \<Rightarrow> streamer" where
  "runCallback e cb s =
     (case cb of
        CbScheduleNextBuffer \<Rightarrow> scheduleNextBuffer e s
      | CbRestartRecognition \<Rightarrow> restartTimeout e s
      | CbSwapGainNode \<Rightarrow> swapGainTimeout s)"

text \<open>The \<open>k\<close>-th pending timer fires; \<open>None\<close> when there is no such timer.\<close>

definition fireTimer :: "env \<Rightarrow> nat \<Rightarrow> streamer \<Rightarrow> streamer option" where
  "fireTimer e k s =
     (if k < length (timers s)
      then Some (runCallback e (action (timers s ! k))
                   (s\<lparr>timers := take k (timers s) @ drop (Suc k) (timers s)\<rparr>))
      else None)"

text \<open>
  The handler of lines 471-476, run when the source named \<open>k\<close> has played to its end.
  The event is possible once: for a started source that has not ended before, and not
  before its buffer has been played.
\<close>

definition endOfQueueHandler :: "nat \<Rightarrow> streamer \<Rightarrow> streamer" where
  "endOfQueueHandler k s =
     (if audioQueue s = [] \<and> endOfQueueAudioSource s = Some k
      then s\<lparr>endOfQueueAudioSource := None, completions := completions s + 1\<rparr>
      else s)"

definition sourceEnds :: "env \<Rightarrow> nat \<Rightarrow> streamer \<Rightarrow> streamer option" where
  "sourceEnds e k s =
     (case find (\<lambda>src. sourceId src = k) (started s) of
        None \<Rightarrow> None
      | Some src \<Rightarrow>
          if played src \<or> currentTime e < startTime src + duration s (buffer src) then None
          else (let s1 = s\<lparr>started :=
                             map (\<lambda>x. if sourceId x = k then x\<lparr>played := True\<rparr> else x) (started s)\<rparr>
                in Some (if onended src then endOfQueueHandler k s1 else s1)))"

subsection \<open>Sessions: sequences of calls and callbacks\<close>

datatype event =
    AddPCM16 "byte list"
  | Complete
  | Stop
  | Resume
  | RestartRecognition
  | TimerFires nat
  | SourceEnds nat
  | RecognizerError bool
  | RecognizerEnd

text \<open>
  One event, with the environment it runs in. \<open>None\<close>: the event cannot happen in this
  state (no such timer or source, no engine to send an event), or the call does not
  return. A \<^verbatim>\<open>resume\<close> that never gets past its await leaves the streamer as it is.
\<close>

definition exec :: "env \<times> event \<Rightarrow> streamer \<Rightarrow> streamer option" where
  "exec x s =
     (case snd x of
        AddPCM16 chunk \<Rightarrow> addPCM16 (fst x) chunk s
      | Complete \<Rightarrow> Some (completeStream (fst x) s)
      | Stop \<Rightarrow> Some (stop (fst x) s)
      | Resume \<Rightarrow> (case resume (fst x) s of None \<Rightarrow> Some s | Some s' \<Rightarrow> Some s')
      | RestartRecognition \<Rightarrow> Some (restartRecognition s)
      | TimerFires k \<Rightarrow> fireTimer (fst x) k s
      | SourceEnds k \<Rightarrow> sourceEnds (fst x) k s
      | RecognizerError noSpeech \<Rightarrow>
          (if speechRecognizer s then Some (recognizerOnerror noSpeech s) else None)
      | RecognizerEnd \<Rightarrow> (if speechRecognizer s then Some (recognizerOnend s) else None))"

fun run :: "(env \<times> event) list \<Rightarrow> streamer \<Rightarrow> streamer option" where
  "run [] s = Some s"
| "run (x # xs) s = (case exec x s of None \<Rightarrow> None | Some s' \<Rightarrow> run xs s')"

text \<open>The environment at clock value \<open>t\<close> with an engine and a context that work.\<close>

definition atTime :: "real \<Rightarrow> env" where
  "atTime t = \<lparr>currentTime = t, startThrows = False, stopThrows = False,
               contextSuspended = False, resumeFulfils = True\<rparr>"

subsection \<open>Notions the statements are written in\<close>

text \<open>
  The signed 16-bit integer of a little-endian byte pair, by the word library, and the
  sample the specification asks for at position \<open>j\<close> of a chunk.
\<close>

definition spec_int16 :: "byte \<Rightarrow> byte \<Rightarrow> int" where
  "spec_int16 lo hi = sint (word_cat hi lo :: 16 word)"

definition spec_sample :: "byte list \<Rightarrow> nat \<Rightarrow> real" where
  "spec_sample chunk j =
     real_of_int (spec_int16 (chunk ! (2 * j)) (chunk ! (2 * j + 1))) / 32768"

text \<open>The full frames of \<open>B\<close> samples that the specification cuts from a buffer.\<close>

definition spec_frames :: "nat \<Rightarrow> real list \<Rightarrow> frame list" where
  "spec_frames B buf = map (\<lambda>j. take B (drop (j * B) buf)) [0 ..< length buf div B]"

text \<open>The samples of a chunk, as addPCM16 appends them to the accumulation buffer.\<close>

definition samplesOf :: "byte list \<Rightarrow> real list" where
  "samplesOf chunk = fst (pcm16ToFloat32 chunk)"

text \<open>What the scheduler has taken from the queue so far, in the order it took it.\<close>

definition dequeued :: "streamer \<Rightarrow> frame list" where
  "dequeued s = map buffer (started s)"

text \<open>The samples that the addPCM16 calls of a session have brought, in arrival order.\<close>

fun ingested :: "(env \<times> event) list \<Rightarrow> real list" where
  "ingested [] = []"
| "ingested ((e, AddPCM16 chunk) # xs) = samplesOf chunk @ ingested xs"
| "ingested (x # xs) = ingested xs"

fun isStop :: "event \<Rightarrow> bool" where
  "isStop Stop = True"
| "isStop ev = False"

text \<open>Calls that end a stream: \<^verbatim>\<open>complete\<close> and \<^verbatim>\<open>stop\<close> raise isStreamComplete.\<close>

fun endsStream :: "event \<Rightarrow> bool" where
  "endsStream Complete = True"
| "endsStream Stop = True"
| "endsStream ev = False"

text \<open>The producer's side before \<^verbatim>\<open>complete\<close>: chunks arrive and timers fire.\<close>

fun feeds :: "event \<Rightarrow> bool" where
  "feeds (AddPCM16 chunk) = True"
| "feeds (TimerFires k) = True"
| "feeds ev = False"

fun isStart :: "engine_call \<Rightarrow> bool" where
  "isStart StartOk = True"
| "isStart StartThrew = True"
| "isStart c = False"

text \<open>
  The samples a streamer holds, oldest first: those of the frames it has handed to the
  scheduler, those of the queued frames, and the accumulation buffer.
\<close>

definition held :: "streamer \<Rightarrow> real list" where
  "held s = concat (dequeued s) @ concat (audioQueue s) @ processingBuffer s"

text \<open>Kinds of events.\<close>

fun isAddPCM16 :: "event \<Rightarrow> bool" where
  "isAddPCM16 (AddPCM16 chunk) = True"
| "isAddPCM16 ev = False"

text \<open>
  The calls and callbacks that can start the engine: addPCM16, restartRecognition and
  the timers (that of restartRecognition among them).
\<close>

fun startPath :: "event \<Rightarrow> bool" where
  "startPath (AddPCM16 chunk) = True"
| "startPath RestartRecognition = True"
| "startPath (TimerFires k) = True"
| "startPath ev = False"

text \<open>
  The calls and callbacks of a session before \<^verbatim>\<open>complete\<close> (chunks arrive, timers fire,
  sources play to their end, the engine sends its events), and the callbacks after it.
\<close>

fun ingests :: "event \<Rightarrow> bool" where
  "ingests (AddPCM16 chunk) = True"
| "ingests (TimerFires k) = True"
| "ingests (SourceEnds k) = True"
| "ingests (RecognizerError noSpeech) = True"
| "ingests RecognizerEnd = True"
| "ingests ev = False"

fun plays :: "event \<Rightarrow> bool" where
  "plays (TimerFires k) = True"
| "plays (SourceEnds k) = True"
| "plays (RecognizerError noSpeech) = True"
| "plays RecognizerEnd = True"
| "plays ev = False"

text \<open>Nothing is queued and no end-of-queue source is tracked.\<close>

definition finished :: "streamer \<Rightarrow> bool" where
  "finished s \<longleftrightarrow> audioQueue s = [] \<and> endOfQueueAudioSource s = None"

text \<open>
  Sources are named by their position in the log; while the queue is empty, the tracked
  end-of-queue source is the last one started, it carries the handler and has not played
  to its end; when none is tracked, the last source started, if there is one, has played
  to its end.
\<close>

definition tracking :: "streamer \<Rightarrow> bool" where
  "tracking s \<longleftrightarrow>
     map sourceId (started s) = [0 ..< length (started s)] \<and>
     (audioQueue s = [] \<longrightarrow>
        (case endOfQueueAudioSource s of
           None \<Rightarrow> started s = [] \<or> played (last (started s))
         | Some k \<Rightarrow> started s \<noteq> [] \<and> k = sourceId (last (started s)) \<and>
                     onended (last (started s)) \<and> \<not> played (last (started s))))"

text \<open>
  The accumulation buffer is empty and, while frames are queued, a timer for another
  scheduling pass is pending.
\<close>

definition rearmed :: "streamer \<Rightarrow> bool" where
  "rearmed s \<longleftrightarrow>
     processingBuffer s = [] \<and>
     (audioQueue s \<noteq> [] \<longrightarrow> (\<exists>t \<in> set (timers s). action t = CbScheduleNextBuffer))"

subsection \<open>Concrete sessions\<close>

text \<open>
  A streamer built by the constructor for a 24000 Hz output, after a chunk of 15362 zero
  bytes at clock 0 (one frame is started at 0.1 and lasts 0.32; one sample stays in the
  accumulation buffer and a timer is set), a pass run by that timer at clock 0.37 (it
  finds nothing to schedule and sets the next timer with delay 0), and a chunk of 15358
  zero bytes at clock 5, which completes a second frame long after the first has been
  played.
\<close>

definition underrun :: streamer where
  "underrun =
     \<lparr>audioQueue = [replicate 7680 0], isPlaying = True, sampleRate = 24000,
      bufferSize = 7680, processingBuffer = [], scheduledTime = 21 / 50,
      gainNode = \<lparr>gainId = 0, automation = []\<rparr>,
      isStreamComplete = False, initialBufferTime = 1 / 10,
      endOfQueueAudioSource = Some 0, speechRecognizer = False,
      isRecognitionActive = False, processor = False,
      started = [\<lparr>sourceId = 0, buffer = replicate 7680 0, startTime = 1 / 10,
                  onended = True, toGain = 0, toProcessor = False, played = False\<rparr>],
      timers = [\<lparr>delay = 0, action = CbScheduleNextBuffer\<rparr>],
      engineCalls = [], completions = 0\<rparr>"

text \<open>
  The streamer inside \<^verbatim>\<open>complete\<close>, called at clock 0.01 after one chunk of two zero
  bytes at clock 0: the single sample has been moved from the accumulation buffer to the
  queue as the last frame, and the scheduling pass of line 569 is about to run.
\<close>

definition flushed :: streamer where
  "flushed =
     \<lparr>audioQueue = [[0]], isPlaying = True, sampleRate = 24000,
      bufferSize = 7680, processingBuffer = [], scheduledTime = 1 / 10,
      gainNode = \<lparr>gainId = 0, automation = []\<rparr>,
      isStreamComplete = True, initialBufferTime = 1 / 10,
      endOfQueueAudioSource = None, speechRecognizer = False,
      isRecognitionActive = False, processor = False,
      started = [],
      timers = [\<lparr>delay = 50, action = CbScheduleNextBuffer\<rparr>],
      engineCalls = [], completions = 0\<rparr>"

text \<open>
  The streamer of the constructor, with an engine, after one chunk of two zero bytes at
  clock 0: the engine has been started and the flag is up.
\<close>

definition listening :: streamer where
  "listening =
     \<lparr>audioQueue = [], isPlaying = True, sampleRate = 24000,
      bufferSize = 7680, processingBuffer = [0], scheduledTime = 1 / 10,
      gainNode = \<lparr>gainId = 0, automation = []\<rparr>,
      isStreamComplete = False, initialBufferTime = 1 / 10,
      endOfQueueAudioSource = None, speechRecognizer = True,
      isRecognitionActive = True, processor = False,
      started = [],
      timers = [\<lparr>delay = 50, action = CbScheduleNextBuffer\<rparr>],
      engineCalls = [StartOk], completions = 0\<rparr>"

text \<open>
  The streamer of the constructor after \<^verbatim>\<open>stop\<close> at clock 0 and the timer of
  \<^verbatim>\<open>stop\<close>, which replaces the gain node, at clock 0.2.
\<close>

definition stopped :: streamer where
  "stopped =
     \<lparr>audioQueue = [], isPlaying = False, sampleRate = 24000,
      bufferSize = 7680, processingBuffer = [], scheduledTime = 0,
      gainNode = \<lparr>gainId = 1, automation = []\<rparr>,
      isStreamComplete = True, initialBufferTime = 1 / 10,
      endOfQueueAudioSource = None, speechRecognizer = False,
      isRecognitionActive = False, processor = False,
      started = [], timers = [], engineCalls = [], completions = 0\<rparr>"

text \<open>The same streamer after \<^verbatim>\<open>resume\<close> at clock 1.\<close>

definition resumed :: streamer where
  "resumed =
     \<lparr>audioQueue = [], isPlaying = False, sampleRate = 24000,
      bufferSize = 7680, processingBuffer = [], scheduledTime = 11 / 10,
      gainNode = \<lparr>gainId = 1, automation = [SetValueAtTime 1 1]\<rparr>,
      isStreamComplete = False, initialBufferTime = 1 / 10,
      endOfQueueAudioSource = None, speechRecognizer = False,
      isRecognitionActive = False, processor = False,
      started = [], timers = [], engineCalls = [], completions = 0\<rparr>"

text \<open>
  The streamer of the constructor after two chunks of 15360 zero bytes, both at clock 0.
  The first is one full frame, started by the first pass, which sets no timer (nothing
  is queued or buffered); the second is one more full frame, which waits in the queue.
\<close>

definition waiting :: streamer where
  "waiting =
     \<lparr>audioQueue = [replicate 7680 0], isPlaying = True, sampleRate = 24000,
      bufferSize = 7680, processingBuffer = [], scheduledTime = 21 / 50,
      gainNode = \<lparr>gainId = 0, automation = []\<rparr>,
      isStreamComplete = False, initialBufferTime = 1 / 10,
      endOfQueueAudioSource = Some 0, speechRecognizer = False,
      isRecognitionActive = False, processor = False,
      started = [\<lparr>sourceId = 0, buffer = replicate 7680 0, startTime = 1 / 10,
                  onended = True, toGain = 0, toProcessor = False, played = False\<rparr>],
      timers = [], engineCalls = [], completions = 0\<rparr>"

text \<open>
  A streamer built by the constructor for a 48000 Hz output, after a chunk of 46082 zero
  bytes at clock 0: three frames of 0.16 and one sample. The first pass has started the
  first frame at 0.1, which moves scheduledTime to 0.26, outside the window of 0.2; two
  frames wait in the queue, one sample in the accumulation buffer, and a timer is set.
\<close>

definition backlog :: streamer where
  "backlog =
     \<lparr>audioQueue = [replicate 7680 0, replicate 7680 0], isPlaying = True, sampleRate = 48000,
      bufferSize = 7680, processingBuffer = [0], scheduledTime = 13 / 50,
      gainNode = \<lparr>gainId = 0, automation = []\<rparr>,
      isStreamComplete = False, initialBufferTime = 1 / 10,
      endOfQueueAudioSource = None, speechRecognizer = False,
      isRecognitionActive = False, processor = False,
      started = [\<lparr>sourceId = 0, buffer = replicate 7680 0, startTime = 1 / 10,
                  onended = False, toGain = 0, toProcessor = False, played = False\<rparr>],
      timers = [\<lparr>delay = 210, action = CbScheduleNextBuffer\<rparr>],
      engineCalls = [], completions = 0\<rparr>"

text \<open>
  A streamer built by the constructor for a 24000 Hz output, after a chunk of 46082 zero
  bytes at clock 0: three frames of 0.32 and one sample; the first frame is started at
  0.1 and a timer is set.
\<close>

definition streaming :: streamer where
  "streaming =
     \<lparr>audioQueue = [replicate 7680 0, replicate 7680 0], isPlaying = True, sampleRate = 24000,
      bufferSize = 7680, processingBuffer = [0], scheduledTime = 21 / 50,
      gainNode = \<lparr>gainId = 0, automation = []\<rparr>,
      isStreamComplete = False, initialBufferTime = 1 / 10,
      endOfQueueAudioSource = None, speechRecognizer = False,
      isRecognitionActive = False, processor = False,
      started = [\<lparr>sourceId = 0, buffer = replicate 7680 0, startTime = 1 / 10,
                  onended = False, toGain = 0, toProcessor = False, played = False\<rparr>],
      timers = [\<lparr>delay = 370, action = CbScheduleNextBuffer\<rparr>],
      engineCalls = [], completions = 0\<rparr>"

text \<open>
  The same streamer after \<^verbatim>\<open>complete\<close> at clock 0.05: the sample has been moved to the
  queue as the last frame; the pass of line 569 starts nothing, scheduledTime 0.42 being
  outside the window, and sets a second timer.
\<close>

definition completed :: streamer where
  "completed =
     \<lparr>audioQueue = [replicate 7680 0, replicate 7680 0, [0]], isPlaying = True,
      sampleRate = 24000,
      bufferSize = 7680, processingBuffer = [], scheduledTime = 21 / 50,
      gainNode = \<lparr>gainId = 0, automation = []\<rparr>,
      isStreamComplete = True, initialBufferTime = 1 / 10,
      endOfQueueAudioSource = None, speechRecognizer = False,
      isRecognitionActive = False, processor = False,
      started = [\<lparr>sourceId = 0, buffer = replicate 7680 0, startTime = 1 / 10,
                  onended = False, toGain = 0, toProcessor = False, played = False\<rparr>],
      timers = [\<lparr>delay = 370, action = CbScheduleNextBuffer\<rparr>,
                \<lparr>delay = 320, action = CbScheduleNextBuffer\<rparr>],
      engineCalls = [], completions = 0\<rparr>"

text \<open>
  The same streamer once both timer chains have run (passes at clock 0.37, 0.69 and 1.01
  start the three queued frames at 0.42, 0.74 and 1.06) and the first three sources have
  played to their end: the source of the last frame is the tracked end-of-queue source
  and has not ended yet.
\<close>

definition lastFrame :: streamer where
  "lastFrame =
     \<lparr>audioQueue = [], isPlaying = False, sampleRate = 24000,
      bufferSize = 7680, processingBuffer = [], scheduledTime = 25441 / 24000,
      gainNode = \<lparr>gainId = 0, automation = []\<rparr>,
      isStreamComplete = True, initialBufferTime = 1 / 10,
      endOfQueueAudioSource = Some 3, speechRecognizer = False,
      isRecognitionActive = False, processor = False,
      started = [\<lparr>sourceId = 0, buffer = replicate 7680 0, startTime = 1 / 10,
                  onended = False, toGain = 0, toProcessor = False, played = True\<rparr>,
                 \<lparr>sourceId = 1, buffer = replicate 7680 0, startTime = 21 / 50,
                  onended = False, toGain = 0, toProcessor = False, played = True\<rparr>,
                 \<lparr>sourceId = 2, buffer = replicate 7680 0, startTime = 37 / 50,
                  onended = False, toGain = 0, toProcessor = False, played = True\<rparr>,
                 \<lparr>sourceId = 3, buffer = [0], startTime = 53 / 50,
                  onended = True, toGain = 0, toProcessor = False, played = False\<rparr>],
      timers = [], engineCalls = [], completions = 0\<rparr>"

declare convertLoop.simps [simp del]
declare scheduleLoop.simps [simp del]

section \<open>Properties\<close>

subsection \<open>The conversion loop\<close>

lemma uint_byte_bound: "uint (b :: byte) < 256"
  using uint_lt2p [of b] by simp

lemma uint_word_cat_bytes:
  "uint (word_cat (hi :: byte) (lo :: byte) :: 16 word) = uint lo + 256 * uint hi"
proof -
  have lo: "0 \<le> uint lo" "uint lo < 256" and hi: "0 \<le> uint hi" "uint hi < 256"
    by (simp_all add: uint_byte_bound)
  have "uint (word_cat hi lo :: 16 word) = take_bit 16 (concat_bit 8 (uint lo) (uint hi))"
    by (simp add: word_cat_eq' uint_word_of_int_eq)
  also have "concat_bit 8 (uint lo) (uint hi) = uint lo + 256 * uint hi"
    using lo by (simp add: concat_bit_eq take_bit_eq_mod push_bit_eq_mult)
  also have "take_bit 16 (uint lo + 256 * uint hi) = uint lo + 256 * uint hi"
    using lo hi by (simp add: take_bit_eq_mod)
  finally show ?thesis .
qed

lemma sint_16_uint:
  "sint (w :: 16 word) = (if uint w < 32768 then uint w else uint w - 65536)"
proof -
  have b: "0 \<le> uint w" "uint w < 65536"
    using uint_lt2p [of w] by simp_all
  have "sint w = take_bit 16 (uint w + 32768) - 32768"
    by (simp add: sint_uint signed_take_bit_eq_take_bit_shift)
  also have "\<dots> = (uint w + 32768) mod 65536 - 32768"
    by (simp add: take_bit_eq_mod)
  also have "\<dots> = (if uint w < 32768 then uint w else uint w - 65536)"
  proof (cases "uint w < 32768")
    case True
    with b show ?thesis by simp
  next
    case False
    have "(uint w + 32768) mod 65536 = ((uint w - 32768) + 65536) mod 65536"
      by (simp add: algebra_simps)
    also have "\<dots> = (uint w - 32768) mod 65536"
      by (simp only: mod_add_self2)
    also have "\<dots> = uint w - 32768"
      using b False by simp
    finally show ?thesis using False by simp
  qed
  finally show ?thesis .
qed

lemma getInt16_in_range:
  "byteOffset + 2 \<le> length buf \<Longrightarrow>
   getInt16 buf byteOffset = Inr (spec_int16 (buf ! byteOffset) (buf ! (byteOffset + 1)))"
  by (simp add: getInt16_def spec_int16_def sint_16_uint uint_word_cat_bytes Let_def)

lemma getInt16_out_of_range:
  "length buf < byteOffset + 2 \<Longrightarrow> getInt16 buf byteOffset = Inl RangeError"
  by (simp add: getInt16_def)

lemma convertLoop_fst:
  "length a = length chunk div 2 \<Longrightarrow>
   fst (convertLoop chunk i a l) = take i a @ map (spec_sample chunk) [i ..< length chunk div 2]"
proof (induction chunk i a l rule: convertLoop.induct)
  case (1 chunk i a l)
  show ?case
  proof (cases "2 * i < length chunk")
    case False
    then have "length chunk div 2 \<le> i" by simp
    with False 1(3) show ?thesis by (subst convertLoop.simps) simp
  next
    case True
    show ?thesis
    proof (cases "i * 2 + 2 \<le> length chunk")
      case in_range: True
      then have g: "getInt16 chunk (i * 2) = Inr (spec_int16 (chunk ! (i * 2)) (chunk ! (i * 2 + 1)))"
        by (rule getInt16_in_range)
      have i: "i < length chunk div 2" using in_range by simp
      define v where "v = real_of_int (spec_int16 (chunk ! (i * 2)) (chunk ! (i * 2 + 1))) / 32768"
      have vs: "v = spec_sample chunk i"
        by (simp add: v_def spec_sample_def mult.commute)
      have ts: "typedSet a i v = a[i := v]"
        using i 1(3) by (simp add: typedSet_def)
      have len: "length (typedSet a i v) = length chunk div 2"
        using 1(3) by (simp add: ts)
      have step: "convertLoop chunk i a l = convertLoop chunk (i + 1) (typedSet a i v) l"
        using True g by (subst convertLoop.simps) (simp add: v_def)
      have "fst (convertLoop chunk (i + 1) (typedSet a i v) l) =
            take (i + 1) (typedSet a i v) @ map (spec_sample chunk) [i + 1 ..< length chunk div 2]"
        using 1(2)[OF True g] len by (simp only: v_def)
      also have "take (i + 1) (typedSet a i v) = take i a @ [spec_sample chunk i]"
        using i 1(3) unfolding ts by (simp add: vs take_Suc_conv_app_nth)
      finally show ?thesis
        using i by (simp add: step upt_conv_Cons)
    next
      case out: False
      then have g: "getInt16 chunk (i * 2) = Inl RangeError"
        by (simp add: getInt16_def)
      have i: "length chunk div 2 = i" using out True by linarith
      show ?thesis
        using True g i 1(1)[OF True g] 1(3)
        by (subst convertLoop.simps) simp
    qed
  qed
qed

lemma convertLoop_snd:
  "snd (convertLoop chunk i a l) =
     l @ (if odd (length chunk) \<and> i \<le> length chunk div 2 then [RangeError] else [])"
proof (induction chunk i a l rule: convertLoop.induct)
  case (1 chunk i a l)
  show ?case
  proof (cases "2 * i < length chunk")
    case False
    then have "\<not> (odd (length chunk) \<and> i \<le> length chunk div 2)" by presburger
    with False show ?thesis by (subst convertLoop.simps) simp
  next
    case True
    show ?thesis
    proof (cases "i * 2 + 2 \<le> length chunk")
      case in_range: True
      then have g: "getInt16 chunk (i * 2) = Inr (spec_int16 (chunk ! (i * 2)) (chunk ! (i * 2 + 1)))"
        by (rule getInt16_in_range)
      have "(i + 1 \<le> length chunk div 2) = (i \<le> length chunk div 2)"
        using in_range by linarith
      then show ?thesis
        using True g 1(2)[OF True g]
        by (subst convertLoop.simps) simp
    next
      case out: False
      then have g: "getInt16 chunk (i * 2) = Inl RangeError"
        by (simp add: getInt16_def)
      have i: "odd (length chunk)" "length chunk div 2 = i" using out True by presburger+
      show ?thesis
        using True g i 1(1)[OF True g]
        by (subst convertLoop.simps) simp
    qed
  qed
qed

lemma pcm16ToFloat32_fst:
  "fst (pcm16ToFloat32 chunk) = map (spec_sample chunk) [0 ..< length chunk div 2]"
  by (simp add: pcm16ToFloat32_def convertLoop_fst)

lemma pcm16ToFloat32_snd:
  "snd (pcm16ToFloat32 chunk) = (if odd (length chunk) then [RangeError] else [])"
  by (simp add: pcm16ToFloat32_def convertLoop_snd)

lemma spec_sample_range: "- 1 \<le> spec_sample chunk j \<and> spec_sample chunk j < 1"
proof -
  let ?v = "spec_int16 (chunk ! (2 * j)) (chunk ! (2 * j + 1))"
  have "- 32768 \<le> ?v" "?v < 32768"
    using sint_ge [of "word_cat (chunk ! (2 * j + 1)) (chunk ! (2 * j)) :: 16 word"]
          sint_lt [of "word_cat (chunk ! (2 * j + 1)) (chunk ! (2 * j)) :: 16 word"]
    by (simp_all add: spec_int16_def)
  then have "- 32768 \<le> real_of_int ?v" "real_of_int ?v < 32768" by linarith+
  then show ?thesis by (simp add: spec_sample_def)
qed

subsection \<open>The rebuffering loop\<close>

lemma spec_frames_short: "length buf < B \<Longrightarrow> spec_frames B buf = []"
  by (simp add: spec_frames_def)

lemma spec_frames_step:
  assumes "0 < B" "B \<le> length buf"
  shows "spec_frames B buf = take B buf # spec_frames B (drop B buf)"
proof -
  have k: "length buf div B = Suc ((length buf - B) div B)"
    using assms by (simp add: le_div_geq)
  show ?thesis
    unfolding spec_frames_def k
    by (simp add: map_upt_Suc add.commute del: upt_Suc)
qed

lemma drop_full_step:
  assumes "0 < B" "B \<le> length (buf :: 'a list)"
  shows "drop (B * ((length buf - B) div B)) (drop B buf) = drop (B * (length buf div B)) buf"
proof -
  have k: "length buf div B = Suc ((length buf - B) div B)"
    using assms by (simp add: le_div_geq)
  show ?thesis by (simp add: k add.commute)
qed

lemma rebufferLoop_Some:
  assumes "0 < bufferSize s"
  shows "rebufferLoop s =
     Some (s\<lparr>audioQueue := audioQueue s @ spec_frames (bufferSize s) (processingBuffer s),
             processingBuffer :=
               drop (bufferSize s * (length (processingBuffer s) div bufferSize s))
                 (processingBuffer s)\<rparr>)"
  using assms
proof (induction "length (processingBuffer s)" arbitrary: s rule: less_induct)
  case less
  let ?B = "bufferSize s" and ?buf = "processingBuffer s"
  show ?case
  proof (cases "?B \<le> length ?buf")
    case False
    then show ?thesis
      by (subst rebufferLoop.simps) (simp add: spec_frames_short)
  next
    case True
    let ?s' = "s\<lparr>audioQueue := audioQueue s @ [take ?B ?buf], processingBuffer := drop ?B ?buf\<rparr>"
    have smaller: "length (processingBuffer ?s') < length ?buf"
      using True less.prems by simp
    have B': "0 < bufferSize ?s'" using less.prems by simp
    have "rebufferLoop s = rebufferLoop ?s'"
      using True by (subst rebufferLoop.simps) simp
    also have "\<dots> = Some (?s'\<lparr>audioQueue := audioQueue ?s' @ spec_frames (bufferSize ?s') (processingBuffer ?s'),
             processingBuffer :=
               drop (bufferSize ?s' * (length (processingBuffer ?s') div bufferSize ?s'))
                 (processingBuffer ?s')\<rparr>)"
      by (rule less.hyps [OF smaller B'])
    also have "\<dots> = Some (s\<lparr>audioQueue := audioQueue s @ spec_frames ?B ?buf,
             processingBuffer := drop (?B * (length ?buf div ?B)) ?buf\<rparr>)"
      using spec_frames_step [OF less.prems True] drop_full_step [OF less.prems True]
      by simp
    finally show ?thesis .
  qed
qed

lemma length_spec_frames: "length (spec_frames B buf) = length buf div B"
  by (simp add: spec_frames_def)

lemma spec_frames_full: "f \<in> set (spec_frames B buf) \<Longrightarrow> length f = B"
proof -
  assume "f \<in> set (spec_frames B buf)"
  then obtain j where j: "j < length buf div B" and f: "f = take B (drop (j * B) buf)"
    by (auto simp: spec_frames_def)
  have "Suc j * B \<le> length buf"
  proof -
    have "Suc j \<le> length buf div B" using j by simp
    then have "Suc j * B \<le> (length buf div B) * B" by (rule mult_le_mono1)
    also have "\<dots> \<le> length buf" by simp
    finally show ?thesis .
  qed
  then show ?thesis by (simp add: f)
qed

lemma concat_spec_frames:
  "0 < B \<Longrightarrow> concat (spec_frames B buf) @ drop (B * (length buf div B)) buf = buf"
proof (induction "length buf" arbitrary: buf rule: less_induct)
  case less
  show ?case
  proof (cases "B \<le> length buf")
    case False
    then show ?thesis by (simp add: spec_frames_short)
  next
    case True
    have "length (drop B buf) < length buf" using True less.prems by simp
    from less.hyps [OF this less.prems]
    have "concat (spec_frames B (drop B buf)) @ drop (B * (length buf div B)) buf = drop B buf"
      using drop_full_step [OF less.prems True] by simp
    then show ?thesis
      using spec_frames_step [OF less.prems True] by simp
  qed
qed

subsection \<open>The scheduling loop\<close>

lemma length_disarm [simp]: "length (disarm t srcs) = length srcs"
  by (simp add: disarm_def split: option.splits)

lemma map_buffer_disarm [simp]: "map buffer (disarm t srcs) = map buffer srcs"
  by (simp add: disarm_def split: option.splits)

lemma scheduleHead_unchanged:
  "isPlaying (scheduleHead e s) = isPlaying s"
  "sampleRate (scheduleHead e s) = sampleRate s"
  "bufferSize (scheduleHead e s) = bufferSize s"
  "processingBuffer (scheduleHead e s) = processingBuffer s"
  "gainNode (scheduleHead e s) = gainNode s"
  "isStreamComplete (scheduleHead e s) = isStreamComplete s"
  "initialBufferTime (scheduleHead e s) = initialBufferTime s"
  "speechRecognizer (scheduleHead e s) = speechRecognizer s"
  "isRecognitionActive (scheduleHead e s) = isRecognitionActive s"
  "processor (scheduleHead e s) = processor s"
  "timers (scheduleHead e s) = timers s"
  "engineCalls (scheduleHead e s) = engineCalls s"
  "completions (scheduleHead e s) = completions s"
  by (simp_all add: scheduleHead_def Let_def split: list.splits)

lemma scheduleLoop_unchanged:
  "isPlaying (scheduleLoop e s) = isPlaying s \<and>
   sampleRate (scheduleLoop e s) = sampleRate s \<and>
   bufferSize (scheduleLoop e s) = bufferSize s \<and>
   processingBuffer (scheduleLoop e s) = processingBuffer s \<and>
   gainNode (scheduleLoop e s) = gainNode s \<and>
   isStreamComplete (scheduleLoop e s) = isStreamComplete s \<and>
   initialBufferTime (scheduleLoop e s) = initialBufferTime s \<and>
   speechRecognizer (scheduleLoop e s) = speechRecognizer s \<and>
   isRecognitionActive (scheduleLoop e s) = isRecognitionActive s \<and>
   processor (scheduleLoop e s) = processor s \<and>
   timers (scheduleLoop e s) = timers s \<and>
   engineCalls (scheduleLoop e s) = engineCalls s \<and>
   completions (scheduleLoop e s) = completions s"
proof (induction e s rule: scheduleLoop.induct)
  case (1 e s)
  show ?case
  proof (cases "scheduleCond e s")
    case True
    with 1 show ?thesis
      by (subst (1 2 3 4 5 6 7 8 9 10 11 12 13) scheduleLoop.simps)
         (simp add: scheduleHead_unchanged)
  next
    case False
    then show ?thesis by (simp add: scheduleLoop.simps)
  qed
qed

lemma scheduleHead_queue:
  "audioQueue s \<noteq> [] \<Longrightarrow>
   audioQueue (scheduleHead e s) = tl (audioQueue s) \<and>
   dequeued (scheduleHead e s) = dequeued s @ [hd (audioQueue s)]"
  by (cases "audioQueue s") (simp_all add: scheduleHead_def dequeued_def Let_def)

lemma scheduleLoop_queue:
  "\<exists>k \<le> length (audioQueue s).
     audioQueue (scheduleLoop e s) = drop k (audioQueue s) \<and>
     dequeued (scheduleLoop e s) = dequeued s @ take k (audioQueue s)"
proof (induction e s rule: scheduleLoop.induct)
  case (1 e s)
  show ?case
  proof (cases "scheduleCond e s")
    case False
    then have "scheduleLoop e s = s" by (simp add: scheduleLoop.simps)
    then show ?thesis by (intro exI [of _ 0]) simp
  next
    case True
    then have ne: "audioQueue s \<noteq> []" by (simp add: scheduleCond_def)
    then obtain a rest where q: "audioQueue s = a # rest" by (cases "audioQueue s") auto
    from 1 [OF True] obtain k where
      k: "k \<le> length (audioQueue (scheduleHead e s))"
         "audioQueue (scheduleLoop e (scheduleHead e s)) = drop k (audioQueue (scheduleHead e s))"
         "dequeued (scheduleLoop e (scheduleHead e s)) =
            dequeued (scheduleHead e s) @ take k (audioQueue (scheduleHead e s))"
      by blast
    have step: "scheduleLoop e s = scheduleLoop e (scheduleHead e s)"
      using True by (subst scheduleLoop.simps) simp
    show ?thesis
      using k scheduleHead_queue [OF ne, of e] q
      by (intro exI [of _ "Suc k"]) (simp add: step)
  qed
qed

subsection \<open>The methods, one call at a time\<close>

lemma spec_sample_zeros: "2 * j + 1 < n \<Longrightarrow> spec_sample (replicate n 0) j = 0"
  by (simp add: spec_sample_def spec_int16_def)

lemma samplesOf_zeros: "samplesOf (replicate n 0) = replicate (n div 2) 0"
proof -
  have "map (spec_sample (replicate n 0)) [0 ..< n div 2] = map (\<lambda>j. 0) [0 ..< n div 2]"
    by (rule map_cong [OF refl]) (simp add: spec_sample_zeros)
  then show ?thesis
    by (simp add: samplesOf_def pcm16ToFloat32_fst map_replicate_const)
qed

lemma rebuffer_Some:
  "0 < bufferSize s \<Longrightarrow>
   rebuffer chunk s =
     Some (s\<lparr>audioQueue := audioQueue s @
                spec_frames (bufferSize s) (processingBuffer s @ samplesOf chunk),
             processingBuffer :=
               drop (bufferSize s * (length (processingBuffer s @ samplesOf chunk) div bufferSize s))
                 (processingBuffer s @ samplesOf chunk)\<rparr>)"
  by (simp add: rebuffer_def samplesOf_def rebufferLoop_Some Let_def)



lemma rebufferLoop_SomeD:
  assumes "rebufferLoop s = Some y"
  shows "0 < bufferSize s"
proof (rule rebufferLoop.raw_induct [where P = "\<lambda>s y. 0 < bufferSize s", OF _ assms])
  fix f :: "streamer \<Rightarrow> streamer option" and s y
  assume IH: "\<And>x z. f x = Some z \<Longrightarrow> 0 < bufferSize x"
    and step: "(if bufferSize s \<le> length (processingBuffer s)
                then f (s\<lparr>audioQueue := audioQueue s @ [take (bufferSize s) (processingBuffer s)],
                         processingBuffer := drop (bufferSize s) (processingBuffer s)\<rparr>)
                else Some s) = Some y"
  show "0 < bufferSize s"
  proof (cases "bufferSize s \<le> length (processingBuffer s)")
    case True
    with step have "f (s\<lparr>audioQueue := audioQueue s @ [take (bufferSize s) (processingBuffer s)],
                         processingBuffer := drop (bufferSize s) (processingBuffer s)\<rparr>) = Some y"
      by simp
    from IH [OF this] show ?thesis by simp
  next
    case False
    then show ?thesis by simp
  qed
qed

lemma rebuffer_SomeD: "rebuffer chunk s = Some y \<Longrightarrow> 0 < bufferSize s"
  by (auto simp: rebuffer_def Let_def dest: rebufferLoop_SomeD)

lemma startRecognition_unchanged:
  "audioQueue (startRecognition e s) = audioQueue s"
  "isPlaying (startRecognition e s) = isPlaying s"
  "sampleRate (startRecognition e s) = sampleRate s"
  "bufferSize (startRecognition e s) = bufferSize s"
  "processingBuffer (startRecognition e s) = processingBuffer s"
  "scheduledTime (startRecognition e s) = scheduledTime s"
  "gainNode (startRecognition e s) = gainNode s"
  "isStreamComplete (startRecognition e s) = isStreamComplete s"
  "initialBufferTime (startRecognition e s) = initialBufferTime s"
  "endOfQueueAudioSource (startRecognition e s) = endOfQueueAudioSource s"
  "speechRecognizer (startRecognition e s) = speechRecognizer s"
  "processor (startRecognition e s) = processor s"
  "started (startRecognition e s) = started s"
  "timers (startRecognition e s) = timers s"
  "completions (startRecognition e s) = completions s"
  by (simp_all add: startRecognition_def)

lemma addPCM16_Some:
  assumes "0 < bufferSize s"
  shows "addPCM16 e chunk s =
     Some (startPlayback e
       ((startRecognition e s)
          \<lparr>audioQueue := audioQueue s @
             spec_frames (bufferSize s) (processingBuffer s @ samplesOf chunk),
           processingBuffer :=
             drop (bufferSize s * (length (processingBuffer s @ samplesOf chunk) div bufferSize s))
               (processingBuffer s @ samplesOf chunk)\<rparr>))"
  using assms
  by (simp add: addPCM16_def rebuffer_Some startRecognition_unchanged)

lemma addPCM16_SomeD: "addPCM16 e chunk s = Some y \<Longrightarrow> 0 < bufferSize s"
  using rebuffer_SomeD [of chunk "startRecognition e s"]
  by (auto simp: addPCM16_def startRecognition_unchanged split: option.splits)

lemma scheduleNextBuffer_unchanged:
  "sampleRate (scheduleNextBuffer e s) = sampleRate s"
  "bufferSize (scheduleNextBuffer e s) = bufferSize s"
  "processingBuffer (scheduleNextBuffer e s) = processingBuffer s"
  "gainNode (scheduleNextBuffer e s) = gainNode s"
  "isStreamComplete (scheduleNextBuffer e s) = isStreamComplete s"
  "initialBufferTime (scheduleNextBuffer e s) = initialBufferTime s"
  "speechRecognizer (scheduleNextBuffer e s) = speechRecognizer s"
  "isRecognitionActive (scheduleNextBuffer e s) = isRecognitionActive s"
  "processor (scheduleNextBuffer e s) = processor s"
  "engineCalls (scheduleNextBuffer e s) = engineCalls s"
  "completions (scheduleNextBuffer e s) = completions s"
  using scheduleLoop_unchanged [of e s]
  by (simp_all add: scheduleNextBuffer_def finishPass_def)

lemma scheduleNextBuffer_queue:
  "\<exists>k \<le> length (audioQueue s).
     audioQueue (scheduleNextBuffer e s) = drop k (audioQueue s) \<and>
     dequeued (scheduleNextBuffer e s) = dequeued s @ take k (audioQueue s)"
proof -
  have "audioQueue (scheduleNextBuffer e s) = audioQueue (scheduleLoop e s)"
       "dequeued (scheduleNextBuffer e s) = dequeued (scheduleLoop e s)"
    by (simp_all add: scheduleNextBuffer_def finishPass_def dequeued_def)
  then show ?thesis using scheduleLoop_queue [of s e] by simp
qed

lemma scheduleNextBuffer_total:
  "dequeued (scheduleNextBuffer e s) @ audioQueue (scheduleNextBuffer e s) =
   dequeued s @ audioQueue s"
proof -
  obtain k where "audioQueue (scheduleNextBuffer e s) = drop k (audioQueue s)"
     "dequeued (scheduleNextBuffer e s) = dequeued s @ take k (audioQueue s)"
    using scheduleNextBuffer_queue by blast
  then show ?thesis by simp
qed

lemma startPlayback_unchanged:
  "sampleRate (startPlayback e s) = sampleRate s"
  "bufferSize (startPlayback e s) = bufferSize s"
  "processingBuffer (startPlayback e s) = processingBuffer s"
  "gainNode (startPlayback e s) = gainNode s"
  "isStreamComplete (startPlayback e s) = isStreamComplete s"
  "initialBufferTime (startPlayback e s) = initialBufferTime s"
  "speechRecognizer (startPlayback e s) = speechRecognizer s"
  "isRecognitionActive (startPlayback e s) = isRecognitionActive s"
  "processor (startPlayback e s) = processor s"
  "engineCalls (startPlayback e s) = engineCalls s"
  "completions (startPlayback e s) = completions s"
  by (simp_all add: startPlayback_def scheduleNextBuffer_unchanged)

lemma startPlayback_total:
  "dequeued (startPlayback e s) @ audioQueue (startPlayback e s) = dequeued s @ audioQueue s"
  using scheduleNextBuffer_total
    [of e "s\<lparr>isPlaying := True, scheduledTime := currentTime e + initialBufferTime s\<rparr>"]
  by (simp add: startPlayback_def dequeued_def)

lemma startPlayback_playing: "isPlaying s \<Longrightarrow> startPlayback e s = s"
  by (simp add: startPlayback_def)

lemma length_samplesOf: "length (samplesOf chunk) = length chunk div 2"
  by (simp add: samplesOf_def pcm16ToFloat32_fst)

lemma length_drop_full: "length (drop (B * (length buf div B)) buf) = length buf mod B"
  by (simp add: minus_mult_div_eq_mod)




lemma map_buffer_played:
  "map buffer (map (\<lambda>x. if sourceId x = k then x\<lparr>played := True\<rparr> else x) srcs) = map buffer srcs"
  by (induction srcs) simp_all

lemma sourceEnds_frames:
  assumes "sourceEnds e k s = Some s'"
  shows "dequeued s' = dequeued s \<and> audioQueue s' = audioQueue s"
  using assms
  by (auto simp: sourceEnds_def endOfQueueHandler_def Let_def dequeued_def map_buffer_played
      split: option.splits if_splits)

lemma scheduleLoop_step: "scheduleCond e s \<Longrightarrow> scheduleLoop e s = scheduleLoop e (scheduleHead e s)"
  by (subst scheduleLoop.simps) simp

lemma scheduleLoop_done: "\<not> scheduleCond e s \<Longrightarrow> scheduleLoop e s = s"
  by (subst scheduleLoop.simps) simp

lemmas pass_eval = scheduleNextBuffer_def scheduleLoop_step scheduleLoop_done scheduleCond_def
  SCHEDULE_AHEAD_TIME_def scheduleHead_def disarm_def duration_def finishPass_def rearmDelay_def
  Let_def

lemma replicate_7680: "replicate 7680 x = x # replicate 7679 x"
proof -
  have "(7680::nat) = Suc 7679" by simp
  then show ?thesis by (simp only: replicate_Suc)
qed

lemma upt_3: "[0 ..< 3] = [0, 1, 2]"
  by (simp add: upt_rec)

lemmas call_eval = exec_def addPCM16_Some newAudioStreamer_def samplesOf_zeros
  startRecognition_def spec_frames_def startPlayback_def atTime_def completeStream_def stop_def
  resume_def fireTimer_def runCallback_def sourceEnds_def endOfQueueHandler_def
  restartRecognition_def restartTimeout_def swapGainTimeout_def recognizerOnerror_def
  recognizerOnend_def

subsection \<open>C4: one scheduling pass\<close>

lemma underrun_reached:
  "run [(atTime 0, AddPCM16 (replicate 15362 0)), (atTime (37 / 100), TimerFires 0),
      (atTime 5, AddPCM16 (replicate 15358 0))]
     (newAudioStreamer 24000 False) = Some underrun"
  by (simp add: call_eval pass_eval underrun_def replicate_7680)


text \<open>
  C4 as stated fails when scheduledTime has fallen behind the clock. In the session of
  \<open>underrun\<close> a pass at clock 5 finds scheduledTime = 0.42 and a frame of duration 0.32: the source
  starts at 5 and scheduledTime becomes 5.32, not 0.42 + 0.32.
\<close>

theorem scheduledTime_advance_counterexample:
  "run [(atTime 0, AddPCM16 (replicate 15362 0)), (atTime (37 / 100), TimerFires 0),
      (atTime 5, AddPCM16 (replicate 15358 0))]
     (newAudioStreamer 24000 False) = Some underrun \<and>
   scheduleCond (atTime 5) underrun \<and>
   duration underrun (hd (audioQueue underrun)) = 8 / 25 \<and>
   scheduledTime underrun = 21 / 50 \<and>
   scheduledTime (scheduleHead (atTime 5) underrun) = 133 / 25 \<and>
   scheduledTime (scheduleNextBuffer (atTime 5) underrun) = 133 / 25 \<and>
   scheduledTime (scheduleHead (atTime 5) underrun) \<noteq>
     scheduledTime underrun + duration underrun (hd (audioQueue underrun))"
proof -
  have "scheduleCond (atTime 5) underrun"
    by (simp add: scheduleCond_def underrun_def atTime_def SCHEDULE_AHEAD_TIME_def)
  moreover have "duration underrun (hd (audioQueue underrun)) = 8 / 25"
    by (simp add: duration_def underrun_def)
  moreover have "scheduledTime underrun = 21 / 50"
    by (simp add: underrun_def)
  moreover have "scheduledTime (scheduleHead (atTime 5) underrun) = 133 / 25"
    by (simp add: scheduleHead_def underrun_def atTime_def duration_def)
  moreover have "scheduledTime (scheduleNextBuffer (atTime 5) underrun) = 133 / 25"
    by (simp add: underrun_def atTime_def) (simp add: pass_eval)
  ultimately show ?thesis
    using underrun_reached by simp
qed

lemma map_startTime_disarm [simp]: "map startTime (disarm t srcs) = map startTime srcs"
  by (simp add: disarm_def split: option.splits)

lemma scheduleHead_sources:
  assumes "audioQueue s \<noteq> []"
  shows "audioQueue (scheduleHead e s) = tl (audioQueue s) \<and>
         map buffer (started (scheduleHead e s)) = map buffer (started s) @ [hd (audioQueue s)] \<and>
         map startTime (started (scheduleHead e s)) =
           map startTime (started s) @ [max (scheduledTime s) (currentTime e)] \<and>
         scheduledTime (scheduleHead e s) =
           max (scheduledTime s) (currentTime e) + duration s (hd (audioQueue s)) \<and>
         sampleRate (scheduleHead e s) = sampleRate s"
  using assms by (cases "audioQueue s") (simp_all add: scheduleHead_def Let_def)

lemma scheduleLoop_sources:
  "\<exists>k ts T. k \<le> length (audioQueue s) \<and> length ts = k \<and>
     (0 < k) = scheduleCond e s \<and>
     audioQueue (scheduleLoop e s) = drop k (audioQueue s) \<and>
     map buffer (started (scheduleLoop e s)) = map buffer (started s) @ take k (audioQueue s) \<and>
     map startTime (started (scheduleLoop e s)) = map startTime (started s) @ ts \<and>
     T 0 = scheduledTime s \<and>
     (\<forall>j<k. T j < currentTime e + SCHEDULE_AHEAD_TIME \<and>
            ts ! j = max (T j) (currentTime e) \<and>
            T (Suc j) = ts ! j + duration s (audioQueue s ! j)) \<and>
     scheduledTime (scheduleLoop e s) = T k \<and>
     (k = length (audioQueue s) \<or> currentTime e + SCHEDULE_AHEAD_TIME \<le> T k)"
proof (induction e s rule: scheduleLoop.induct)
  case (1 e s)
  show ?case
  proof (cases "scheduleCond e s")
    case False
    then have L: "scheduleLoop e s = s" by (rule scheduleLoop_done)
    have stop: "0 = length (audioQueue s) \<or> currentTime e + SCHEDULE_AHEAD_TIME \<le> scheduledTime s"
      using False by (auto simp: scheduleCond_def)
    show ?thesis
      by (rule exI [of _ 0], rule exI [of _ "[]"], rule exI [of _ "\<lambda>j. scheduledTime s"])
         (use False stop in \<open>simp add: L\<close>)
  next
    case True
    then have ne: "audioQueue s \<noteq> []" and lt: "scheduledTime s < currentTime e + SCHEDULE_AHEAD_TIME"
      by (simp_all add: scheduleCond_def)
    obtain a rest where q: "audioQueue s = a # rest" using ne by (cases "audioQueue s") auto
    let ?s' = "scheduleHead e s"
    note h = scheduleHead_sources [OF ne, of e]
    have d: "duration ?s' f = duration s f" for f
      using h by (simp add: duration_def)
    have L: "scheduleLoop e s = scheduleLoop e ?s'" using True by (rule scheduleLoop_step)
    from 1 [OF True] obtain k ts T where
      k: "k \<le> length (audioQueue ?s')" "length ts = k"
      and qL: "audioQueue (scheduleLoop e ?s') = drop k (audioQueue ?s')"
      and bL: "map buffer (started (scheduleLoop e ?s')) = map buffer (started ?s') @ take k (audioQueue ?s')"
      and tL: "map startTime (started (scheduleLoop e ?s')) = map startTime (started ?s') @ ts"
      and T0: "T 0 = scheduledTime ?s'"
      and Tj: "\<forall>j<k. T j < currentTime e + SCHEDULE_AHEAD_TIME \<and>
            ts ! j = max (T j) (currentTime e) \<and>
            T (Suc j) = ts ! j + duration ?s' (audioQueue ?s' ! j)"
      and Tk: "scheduledTime (scheduleLoop e ?s') = T k"
      and stop: "k = length (audioQueue ?s') \<or> currentTime e + SCHEDULE_AHEAD_TIME \<le> T k"
      by blast
    let ?t0 = "max (scheduledTime s) (currentTime e)"
    let ?T = "\<lambda>j. case j of 0 \<Rightarrow> scheduledTime s | Suc i \<Rightarrow> T i"
    have qs': "audioQueue ?s' = rest" using h q by simp
    have steps: "\<forall>j<Suc k. ?T j < currentTime e + SCHEDULE_AHEAD_TIME \<and>
            (?t0 # ts) ! j = max (?T j) (currentTime e) \<and>
            ?T (Suc j) = (?t0 # ts) ! j + duration s (audioQueue s ! j)"
    proof (intro allI impI)
      fix j assume j: "j < Suc k"
      show "?T j < currentTime e + SCHEDULE_AHEAD_TIME \<and>
            (?t0 # ts) ! j = max (?T j) (currentTime e) \<and>
            ?T (Suc j) = (?t0 # ts) ! j + duration s (audioQueue s ! j)"
      proof (cases j)
        case 0
        then show ?thesis using lt T0 h q by simp
      next
        case (Suc i)
        then have "i < k" using j by simp
        with Tj have "T i < currentTime e + SCHEDULE_AHEAD_TIME \<and>
            ts ! i = max (T i) (currentTime e) \<and>
            T (Suc i) = ts ! i + duration ?s' (audioQueue ?s' ! i)" by blast
        then show ?thesis using Suc q qs' d by simp
      qed
    qed
    have "Suc k \<le> length (audioQueue s) \<and> length (?t0 # ts) = Suc k \<and>
      (0 < Suc k) = scheduleCond e s \<and>
      audioQueue (scheduleLoop e s) = drop (Suc k) (audioQueue s) \<and>
      map buffer (started (scheduleLoop e s)) = map buffer (started s) @ take (Suc k) (audioQueue s) \<and>
      map startTime (started (scheduleLoop e s)) = map startTime (started s) @ (?t0 # ts) \<and>
      ?T 0 = scheduledTime s \<and>
      (\<forall>j<Suc k. ?T j < currentTime e + SCHEDULE_AHEAD_TIME \<and>
            (?t0 # ts) ! j = max (?T j) (currentTime e) \<and>
            ?T (Suc j) = (?t0 # ts) ! j + duration s (audioQueue s ! j)) \<and>
      scheduledTime (scheduleLoop e s) = ?T (Suc k) \<and>
      (Suc k = length (audioQueue s) \<or> currentTime e + SCHEDULE_AHEAD_TIME \<le> ?T (Suc k))"
      using k qL bL tL Tk stop True h q qs' steps by (simp add: L)
    then show ?thesis by blast
  qed
qed


lemma scheduleLoop_scheduledTime_queue:
  "audioQueue (scheduleNextBuffer e s) = audioQueue (scheduleLoop e s) \<and>
   processingBuffer (scheduleNextBuffer e s) = processingBuffer (scheduleLoop e s) \<and>
   scheduledTime (scheduleNextBuffer e s) = scheduledTime (scheduleLoop e s)"
  by (simp add: scheduleNextBuffer_def finishPass_def)

lemma backlog_reached:
  "run [(atTime 0, AddPCM16 (replicate 46082 0))] (newAudioStreamer 48000 False) = Some backlog"
  by (simp add: call_eval pass_eval backlog_def replicate_7680 upt_3)

text \<open>
  C4 (amended). Every pass of scheduleNextBuffer takes some number \<open>k\<close> of frames from the
  head of the queue, in order, and starts one source for each; \<open>k\<close> is positive exactly
  when the queue is not empty and \<open>scheduledTime < currentTime + 0.2\<close> as the pass begins.
  With \<open>T j\<close> the value of scheduledTime before the \<open>j\<close>-th of these frames is taken
  (\<open>T 0\<close> is the value the pass finds), each \<open>T j\<close> is below \<open>currentTime + 0.2\<close>, the
  \<open>j\<close>-th source is started at \<open>max (T j) currentTime\<close>, and scheduledTime is set to that
  start time plus the frame's duration: an advance by exactly the duration when
  scheduledTime has not fallen behind the clock. The pass stops when the queue is empty or
  scheduledTime has reached \<open>currentTime + 0.2\<close>. Afterwards, if the queue or the
  accumulation buffer is not empty, one timer is set for another pass, with the delay
  \<open>max 0 ((scheduledTime - currentTime) * 1000 - 50)\<close>, which is never negative; if both
  are empty no timer is set.
\<close>

theorem scheduleNextBuffer_pass:
  "(\<exists>k ts T.
      k \<le> length (audioQueue s) \<and> length ts = k \<and>
      (0 < k) = (audioQueue s \<noteq> [] \<and> scheduledTime s < currentTime e + SCHEDULE_AHEAD_TIME) \<and>
      audioQueue (scheduleNextBuffer e s) = drop k (audioQueue s) \<and>
      map buffer (started (scheduleNextBuffer e s)) =
        map buffer (started s) @ take k (audioQueue s) \<and>
      map startTime (started (scheduleNextBuffer e s)) = map startTime (started s) @ ts \<and>
      T 0 = scheduledTime s \<and>
      (\<forall>j<k. T j < currentTime e + SCHEDULE_AHEAD_TIME \<and>
             ts ! j = max (T j) (currentTime e) \<and>
             T (Suc j) = ts ! j + duration s (audioQueue s ! j) \<and>
             (currentTime e \<le> T j \<longrightarrow> T (Suc j) = T j + duration s (audioQueue s ! j))) \<and>
      scheduledTime (scheduleNextBuffer e s) = T k \<and>
      (k = length (audioQueue s) \<or> currentTime e + SCHEDULE_AHEAD_TIME \<le> T k)) \<and>
   processingBuffer (scheduleNextBuffer e s) = processingBuffer s \<and>
   (audioQueue (scheduleNextBuffer e s) \<noteq> [] \<or> processingBuffer (scheduleNextBuffer e s) \<noteq> [] \<longrightarrow>
      timers (scheduleNextBuffer e s) =
        timers s @
        [\<lparr>delay = max 0 ((scheduledTime (scheduleNextBuffer e s) - currentTime e) * 1000 - 50),
          action = CbScheduleNextBuffer\<rparr>] \<and>
      0 \<le> delay (last (timers (scheduleNextBuffer e s)))) \<and>
   (audioQueue (scheduleNextBuffer e s) = [] \<and> processingBuffer (scheduleNextBuffer e s) = [] \<longrightarrow>
      timers (scheduleNextBuffer e s) = timers s)"
proof (intro conjI impI)
  have f: "audioQueue (scheduleNextBuffer e s) = audioQueue (scheduleLoop e s)"
    "started (scheduleNextBuffer e s) = started (scheduleLoop e s)"
    "scheduledTime (scheduleNextBuffer e s) = scheduledTime (scheduleLoop e s)"
    by (simp_all add: scheduleNextBuffer_def finishPass_def)
  from scheduleLoop_sources [of s e] obtain k ts T where
    k: "k \<le> length (audioQueue s)" "length ts = k" "(0 < k) = scheduleCond e s"
    and qL: "audioQueue (scheduleLoop e s) = drop k (audioQueue s)"
    and bL: "map buffer (started (scheduleLoop e s)) = map buffer (started s) @ take k (audioQueue s)"
    and tL: "map startTime (started (scheduleLoop e s)) = map startTime (started s) @ ts"
    and T0: "T 0 = scheduledTime s"
    and Tj: "\<forall>j<k. T j < currentTime e + SCHEDULE_AHEAD_TIME \<and>
            ts ! j = max (T j) (currentTime e) \<and>
            T (Suc j) = ts ! j + duration s (audioQueue s ! j)"
    and Tk: "scheduledTime (scheduleLoop e s) = T k"
    and stop: "k = length (audioQueue s) \<or> currentTime e + SCHEDULE_AHEAD_TIME \<le> T k"
    by blast
  have Tj': "\<forall>j<k. T j < currentTime e + SCHEDULE_AHEAD_TIME \<and>
             ts ! j = max (T j) (currentTime e) \<and>
             T (Suc j) = ts ! j + duration s (audioQueue s ! j) \<and>
             (currentTime e \<le> T j \<longrightarrow> T (Suc j) = T j + duration s (audioQueue s ! j))"
    using Tj by (simp add: max_def)
  have "k \<le> length (audioQueue s) \<and> length ts = k \<and>
      (0 < k) = (audioQueue s \<noteq> [] \<and> scheduledTime s < currentTime e + SCHEDULE_AHEAD_TIME) \<and>
      audioQueue (scheduleNextBuffer e s) = drop k (audioQueue s) \<and>
      map buffer (started (scheduleNextBuffer e s)) =
        map buffer (started s) @ take k (audioQueue s) \<and>
      map startTime (started (scheduleNextBuffer e s)) = map startTime (started s) @ ts \<and>
      T 0 = scheduledTime s \<and>
      (\<forall>j<k. T j < currentTime e + SCHEDULE_AHEAD_TIME \<and>
             ts ! j = max (T j) (currentTime e) \<and>
             T (Suc j) = ts ! j + duration s (audioQueue s ! j) \<and>
             (currentTime e \<le> T j \<longrightarrow> T (Suc j) = T j + duration s (audioQueue s ! j))) \<and>
      scheduledTime (scheduleNextBuffer e s) = T k \<and>
      (k = length (audioQueue s) \<or> currentTime e + SCHEDULE_AHEAD_TIME \<le> T k)"
    using k qL bL tL T0 Tj' Tk stop by (simp add: f scheduleCond_def)
  then show "\<exists>k ts T.
      k \<le> length (audioQueue s) \<and> length ts = k \<and>
      (0 < k) = (audioQueue s \<noteq> [] \<and> scheduledTime s < currentTime e + SCHEDULE_AHEAD_TIME) \<and>
      audioQueue (scheduleNextBuffer e s) = drop k (audioQueue s) \<and>
      map buffer (started (scheduleNextBuffer e s)) =
        map buffer (started s) @ take k (audioQueue s) \<and>
      map startTime (started (scheduleNextBuffer e s)) = map startTime (started s) @ ts \<and>
      T 0 = scheduledTime s \<and>
      (\<forall>j<k. T j < currentTime e + SCHEDULE_AHEAD_TIME \<and>
             ts ! j = max (T j) (currentTime e) \<and>
             T (Suc j) = ts ! j + duration s (audioQueue s ! j) \<and>
             (currentTime e \<le> T j \<longrightarrow> T (Suc j) = T j + duration s (audioQueue s ! j))) \<and>
      scheduledTime (scheduleNextBuffer e s) = T k \<and>
      (k = length (audioQueue s) \<or> currentTime e + SCHEDULE_AHEAD_TIME \<le> T k)"
    by blast
next
  show "processingBuffer (scheduleNextBuffer e s) = processingBuffer s"
    by (rule scheduleNextBuffer_unchanged)
next
  assume a: "audioQueue (scheduleNextBuffer e s) \<noteq> [] \<or> processingBuffer (scheduleNextBuffer e s) \<noteq> []"
  then have b: "\<not> (audioQueue (scheduleLoop e s) = [] \<and> processingBuffer (scheduleLoop e s) = [])"
    using scheduleLoop_scheduledTime_queue [of e s] by simp
  have t: "timers (scheduleLoop e s) = timers s"
    using scheduleLoop_unchanged [of e s] by simp
  show "timers (scheduleNextBuffer e s) =
        timers s @
        [\<lparr>delay = max 0 ((scheduledTime (scheduleNextBuffer e s) - currentTime e) * 1000 - 50),
          action = CbScheduleNextBuffer\<rparr>]"
    using b t by (auto simp: scheduleNextBuffer_def finishPass_def rearmDelay_def)
  then show "0 \<le> delay (last (timers (scheduleNextBuffer e s)))"
    by simp
next
  assume "audioQueue (scheduleNextBuffer e s) = [] \<and> processingBuffer (scheduleNextBuffer e s) = []"
  then have b: "audioQueue (scheduleLoop e s) = [] \<and> processingBuffer (scheduleLoop e s) = []"
    using scheduleLoop_scheduledTime_queue [of e s] by simp
  have t: "timers (scheduleLoop e s) = timers s"
    using scheduleLoop_unchanged [of e s] by simp
  show "timers (scheduleNextBuffer e s) = timers s"
    using b t by (simp add: scheduleNextBuffer_def finishPass_def)
qed

text \<open>
  The pass that a late timer runs at clock 0.3 on \<open>backlog\<close> takes both queued frames:
  the first source starts at the clock value 0.3, scheduledTime 0.26 having fallen behind
  it, the second at 0.46, and scheduledTime ends at 0.62; the sample in the accumulation
  buffer makes the pass set a timer with delay 270.
\<close>

theorem scheduleNextBuffer_pass_witness:
  "run [(atTime 0, AddPCM16 (replicate 46082 0))] (newAudioStreamer 48000 False) = Some backlog \<and>
   audioQueue backlog = [replicate 7680 0, replicate 7680 0] \<and>
   scheduledTime backlog = 13 / 50 \<and>
   duration backlog (replicate 7680 0) = 4 / 25 \<and>
   audioQueue (scheduleNextBuffer (atTime (3 / 10)) backlog) = [] \<and>
   map buffer (started (scheduleNextBuffer (atTime (3 / 10)) backlog)) =
     [replicate 7680 0, replicate 7680 0, replicate 7680 0] \<and>
   map startTime (started (scheduleNextBuffer (atTime (3 / 10)) backlog)) = [1 / 10, 3 / 10, 23 / 50] \<and>
   scheduledTime (scheduleNextBuffer (atTime (3 / 10)) backlog) = 31 / 50 \<and>
   processingBuffer (scheduleNextBuffer (atTime (3 / 10)) backlog) = [0] \<and>
   timers (scheduleNextBuffer (atTime (3 / 10)) backlog) =
     timers backlog @ [\<lparr>delay = 270, action = CbScheduleNextBuffer\<rparr>]"
proof -
  let ?e = "atTime (3 / 10)"
  let ?p = "scheduleNextBuffer ?e backlog"
  have b: "audioQueue backlog = [replicate 7680 0, replicate 7680 0]"
    "scheduledTime backlog = 13 / 50" "processingBuffer backlog = [0]"
    "map buffer (started backlog) = [replicate 7680 0]"
    "map startTime (started backlog) = [1 / 10]"
    "duration backlog (replicate 7680 0) = 4 / 25"
    "currentTime ?e = 3 / 10"
    by (simp_all add: backlog_def duration_def atTime_def)
  note pass = scheduleNextBuffer_pass [of backlog ?e]
  from pass obtain k ts T where
    k: "k \<le> length (audioQueue backlog)" "length ts = k"
      "(0 < k) = (audioQueue backlog \<noteq> [] \<and>
                  scheduledTime backlog < currentTime ?e + SCHEDULE_AHEAD_TIME)"
    and q: "audioQueue ?p = drop k (audioQueue backlog)"
    and bs: "map buffer (started ?p) = map buffer (started backlog) @ take k (audioQueue backlog)"
    and ts: "map startTime (started ?p) = map startTime (started backlog) @ ts"
    and T0: "T 0 = scheduledTime backlog"
    and Tj: "\<forall>j<k. T j < currentTime ?e + SCHEDULE_AHEAD_TIME \<and>
             ts ! j = max (T j) (currentTime ?e) \<and>
             T (Suc j) = ts ! j + duration backlog (audioQueue backlog ! j) \<and>
             (currentTime ?e \<le> T j \<longrightarrow> T (Suc j) = T j + duration backlog (audioQueue backlog ! j))"
    and Tk: "scheduledTime ?p = T k"
    and stop: "k = length (audioQueue backlog) \<or> currentTime ?e + SCHEDULE_AHEAD_TIME \<le> T k"
    by blast
  have k0: "0 < k" using k(3) b by (simp add: SCHEDULE_AHEAD_TIME_def)
  from Tj k0 have s0: "ts ! 0 = 3 / 10" "T 1 = 23 / 50"
    using T0 b by (auto simp: max_def)
  have k2: "k = 2"
  proof (rule ccontr)
    assume "k \<noteq> 2"
    then have "k = 1" using k(1) k0 b by simp
    then show False using stop s0 b by (simp add: SCHEDULE_AHEAD_TIME_def)
  qed
  from Tj k2 have "ts ! 1 = max (T 1) (currentTime ?e) \<and>
      T (Suc 1) = ts ! 1 + duration backlog (audioQueue backlog ! 1)"
    by simp
  then have s1: "ts ! 1 = 23 / 50" "T 2 = 31 / 50"
    using s0 b by (simp_all add: max_def numeral_2_eq_2)
  have "length ts = 2" using k(2) k2 by simp
  then have tsv: "ts = [ts ! 0, ts ! 1]"
    by (cases ts; cases "tl ts") auto
  have tsv2: "ts = [3 / 10, 23 / 50]"
    by (subst tsv) (simp only: s0(1) s1(1))
  have r1: "audioQueue ?p = []" using q k2 b by simp
  have r2: "map buffer (started ?p) = [replicate 7680 0, replicate 7680 0, replicate 7680 0]"
    using bs k2 b by simp
  have r3: "map startTime (started ?p) = [1 / 10, 3 / 10, 23 / 50]"
    using ts b by (simp add: tsv2)
  have r4: "scheduledTime ?p = 31 / 50" using Tk k2 s1 by simp
  have r5: "processingBuffer ?p = [0]" using pass b by simp
  have r6: "timers ?p = timers backlog @ [\<lparr>delay = 270, action = CbScheduleNextBuffer\<rparr>]"
    using pass r5 r4 b by simp
  show ?thesis
    using backlog_reached b r1 r2 r3 r4 r5 r6 by simp
qed

subsection \<open>C9: stop\<close>

text \<open>
  C9. \<^verbatim>\<open>stop\<close> returns from every state, the one the constructor builds included,
  also when the engine's stop throws (the model has no error result for it), and two
  calls in a row return as well. It never calls \<^verbatim>\<open>onComplete\<close> and installs or removes no
  end-of-playback handler. After one call the queue and the accumulation buffer are
  empty, isPlaying is false and isStreamComplete is true; a second call leaves these
  four as the first call left them.
\<close>

theorem stop_idempotent:
  "run [(e, Stop), (e', Stop)] s = Some (stop e' (stop e s)) \<and>
   completions (stop e s) = completions s \<and>
   completions (stop e' (stop e s)) = completions s \<and>
   started (stop e s) = started s \<and>
   endOfQueueAudioSource (stop e s) = endOfQueueAudioSource s \<and>
   audioQueue (stop e s) = [] \<and> processingBuffer (stop e s) = [] \<and>
   \<not> isPlaying (stop e s) \<and> isStreamComplete (stop e s) \<and>
   audioQueue (stop e' (stop e s)) = audioQueue (stop e s) \<and>
   processingBuffer (stop e' (stop e s)) = processingBuffer (stop e s) \<and>
   isPlaying (stop e' (stop e s)) = isPlaying (stop e s) \<and>
   isStreamComplete (stop e' (stop e s)) = isStreamComplete (stop e s)"
  by (simp add: exec_def stop_def Let_def)

theorem stop_idempotent_witness:
  "run [(atTime 0, Stop), (atTime 1, Stop)] (newAudioStreamer 24000 True) =
     Some (stop (atTime 1) (stop (atTime 0) (newAudioStreamer 24000 True))) \<and>
   completions (stop (atTime 1) (stop (atTime 0) (newAudioStreamer 24000 True))) = 0 \<and>
   audioQueue (stop (atTime 1) (stop (atTime 0) (newAudioStreamer 24000 True))) = [] \<and>
   processingBuffer (stop (atTime 1) (stop (atTime 0) (newAudioStreamer 24000 True))) = [] \<and>
   \<not> isPlaying (stop (atTime 1) (stop (atTime 0) (newAudioStreamer 24000 True))) \<and>
   isStreamComplete (stop (atTime 1) (stop (atTime 0) (newAudioStreamer 24000 True)))"
  using stop_idempotent [of "atTime 0" "atTime 1" "newAudioStreamer 24000 True"]
  by (simp add: newAudioStreamer_def)

subsection \<open>C5: the end of a stream in a scheduling pass\<close>

lemma flushed_reached:
  "run [(atTime 0, AddPCM16 (replicate 2 0)), (atTime (1 / 100), Complete)]
     (newAudioStreamer 24000 False) = Some (scheduleNextBuffer (atTime (1 / 100)) flushed)"
  by (simp add: call_eval flushed_def) (simp add: pass_eval)

lemma flushed_pass:
  "scheduleNextBuffer (atTime (1 / 100)) flushed =
     \<lparr>audioQueue = [], isPlaying = False, sampleRate = 24000,
      bufferSize = 7680, processingBuffer = [], scheduledTime = 2401 / 24000,
      gainNode = \<lparr>gainId = 0, automation = []\<rparr>,
      isStreamComplete = True, initialBufferTime = 1 / 10,
      endOfQueueAudioSource = Some 0, speechRecognizer = False,
      isRecognitionActive = False, processor = False,
      started = [\<lparr>sourceId = 0, buffer = [0], startTime = 1 / 10,
                  onended = True, toGain = 0, toProcessor = False, played = False\<rparr>],
      timers = [\<lparr>delay = 50, action = CbScheduleNextBuffer\<rparr>],
      engineCalls = [], completions = 0\<rparr>"
  by (simp add: flushed_def atTime_def) (simp add: pass_eval)

text \<open>
  C5 as stated fails: that pass ends with the queue and the accumulation buffer empty and
  the stream complete, it lowers isPlaying, and \<^verbatim>\<open>onComplete\<close> has not been called.
\<close>

theorem pass_completion_counterexample:
  "run [(atTime 0, AddPCM16 (replicate 2 0)), (atTime (1 / 100), Complete)]
     (newAudioStreamer 24000 False) = Some (scheduleNextBuffer (atTime (1 / 100)) flushed) \<and>
   audioQueue (scheduleNextBuffer (atTime (1 / 100)) flushed) = [] \<and>
   processingBuffer (scheduleNextBuffer (atTime (1 / 100)) flushed) = [] \<and>
   isStreamComplete (scheduleNextBuffer (atTime (1 / 100)) flushed) \<and>
   \<not> isPlaying (scheduleNextBuffer (atTime (1 / 100)) flushed) \<and>
   completions flushed = 0 \<and>
   completions (scheduleNextBuffer (atTime (1 / 100)) flushed) = 0"
  using flushed_reached by (simp add: flushed_pass) (simp add: flushed_def)

lemma scheduleHead_last_tracked:
  assumes "audioQueue s \<noteq> []" and "audioQueue (scheduleHead e s) = []"
  shows "endOfQueueAudioSource (scheduleHead e s) = Some (sourceId (last (started (scheduleHead e s)))) \<and>
         onended (last (started (scheduleHead e s)))"
  using assms by (cases "audioQueue s") (simp_all add: scheduleHead_def Let_def)

lemma scheduleLoop_length_started:
  "length (started (scheduleLoop e s)) + length (audioQueue (scheduleLoop e s)) =
   length (started s) + length (audioQueue s)"
proof -
  obtain k where k: "k \<le> length (audioQueue s)"
     "audioQueue (scheduleLoop e s) = drop k (audioQueue s)"
     "dequeued (scheduleLoop e s) = dequeued s @ take k (audioQueue s)"
    using scheduleLoop_queue by blast
  have "length (dequeued (scheduleLoop e s)) = length (dequeued s) + k"
    using k(1) by (simp add: k(3))
  then show ?thesis using k(1,2) by (simp add: dequeued_def)
qed

lemma scheduleLoop_last_tracked:
  "audioQueue (scheduleLoop e s) = [] \<Longrightarrow>
   length (started s) < length (started (scheduleLoop e s)) \<Longrightarrow>
   endOfQueueAudioSource (scheduleLoop e s) = Some (sourceId (last (started (scheduleLoop e s)))) \<and>
   onended (last (started (scheduleLoop e s)))"
proof (induction e s rule: scheduleLoop.induct)
  case (1 e s)
  show ?case
  proof (cases "scheduleCond e s")
    case False
    then have "scheduleLoop e s = s" by (rule scheduleLoop_done)
    with 1(3) show ?thesis by simp
  next
    case True
    then have ne: "audioQueue s \<noteq> []" by (simp add: scheduleCond_def)
    have step: "scheduleLoop e s = scheduleLoop e (scheduleHead e s)"
      using True by (rule scheduleLoop_step)
    show ?thesis
    proof (cases "audioQueue (scheduleHead e s) = []")
      case True
      then have "\<not> scheduleCond e (scheduleHead e s)" by (simp add: scheduleCond_def)
      then have "scheduleLoop e (scheduleHead e s) = scheduleHead e s" by (rule scheduleLoop_done)
      then show ?thesis
        using scheduleHead_last_tracked [OF ne True] by (simp add: step)
    next
      case False
      have "length (started (scheduleHead e s)) < length (started (scheduleLoop e (scheduleHead e s)))"
        using scheduleLoop_length_started [of e "scheduleHead e s"] False 1(2)
        by (simp add: step)
      from 1(1) [OF True _ this] 1(2) show ?thesis by (simp add: step)
    qed
  qed
qed

lemma scheduleNextBuffer_started:
  "started (scheduleNextBuffer e s) = started (scheduleLoop e s) \<and>
   endOfQueueAudioSource (scheduleNextBuffer e s) = endOfQueueAudioSource (scheduleLoop e s)"
  by (simp add: scheduleNextBuffer_def finishPass_def)

text \<open>
  C5 (amended). Whenever a pass of scheduleNextBuffer ends with the queue empty, the
  accumulation buffer empty and isStreamComplete true, isPlaying becomes false and no
  timer is set for another pass. The pass itself does not call \<^verbatim>\<open>onComplete\<close>: when it
  has started a source, the last one it started carries the end-of-queue handler and is
  the tracked endOfQueueAudioSource, so the callback is left to that source's
  end-of-playback event.
\<close>

theorem pass_end_of_stream:
  "audioQueue (scheduleNextBuffer e s) = [] \<and> processingBuffer (scheduleNextBuffer e s) = [] \<and>
   isStreamComplete (scheduleNextBuffer e s) \<longrightarrow>
     \<not> isPlaying (scheduleNextBuffer e s) \<and>
     completions (scheduleNextBuffer e s) = completions s \<and>
     timers (scheduleNextBuffer e s) = timers s \<and>
     (length (started s) < length (started (scheduleNextBuffer e s)) \<longrightarrow>
        endOfQueueAudioSource (scheduleNextBuffer e s) =
          Some (sourceId (last (started (scheduleNextBuffer e s)))) \<and>
        onended (last (started (scheduleNextBuffer e s))))"
proof (intro impI conjI)
  assume a: "audioQueue (scheduleNextBuffer e s) = [] \<and> processingBuffer (scheduleNextBuffer e s) = [] \<and>
   isStreamComplete (scheduleNextBuffer e s)"
  then have b: "audioQueue (scheduleLoop e s) = []" "processingBuffer (scheduleLoop e s) = []"
      "isStreamComplete (scheduleLoop e s)"
    using scheduleLoop_scheduledTime_queue [of e s] scheduleLoop_unchanged [of e s]
    by (simp_all add: scheduleNextBuffer_unchanged)
  show "\<not> isPlaying (scheduleNextBuffer e s)"
    using b by (simp add: scheduleNextBuffer_def finishPass_def)
  show "completions (scheduleNextBuffer e s) = completions s"
    by (rule scheduleNextBuffer_unchanged)
  show "timers (scheduleNextBuffer e s) = timers s"
    using b scheduleLoop_unchanged [of e s] by (simp add: scheduleNextBuffer_def finishPass_def)
  assume "length (started s) < length (started (scheduleNextBuffer e s))"
  then have "length (started s) < length (started (scheduleLoop e s))"
    by (simp add: scheduleNextBuffer_started)
  from scheduleLoop_last_tracked [OF b(1) this]
  show "endOfQueueAudioSource (scheduleNextBuffer e s) =
          Some (sourceId (last (started (scheduleNextBuffer e s))))"
    and "onended (last (started (scheduleNextBuffer e s)))"
    by (simp_all add: scheduleNextBuffer_started)
qed

theorem pass_end_of_stream_witness:
  "audioQueue (scheduleNextBuffer (atTime (1 / 100)) flushed) = [] \<and>
   processingBuffer (scheduleNextBuffer (atTime (1 / 100)) flushed) = [] \<and>
   isStreamComplete (scheduleNextBuffer (atTime (1 / 100)) flushed) \<and>
   length (started flushed) < length (started (scheduleNextBuffer (atTime (1 / 100)) flushed)) \<and>
   \<not> isPlaying (scheduleNextBuffer (atTime (1 / 100)) flushed) \<and>
   completions (scheduleNextBuffer (atTime (1 / 100)) flushed) = 0 \<and>
   timers (scheduleNextBuffer (atTime (1 / 100)) flushed) =
     [\<lparr>delay = 50, action = CbScheduleNextBuffer\<rparr>] \<and>
   endOfQueueAudioSource (scheduleNextBuffer (atTime (1 / 100)) flushed) = Some 0"
proof -
  have h: "audioQueue (scheduleNextBuffer (atTime (1 / 100)) flushed) = []"
    "processingBuffer (scheduleNextBuffer (atTime (1 / 100)) flushed) = []"
    "isStreamComplete (scheduleNextBuffer (atTime (1 / 100)) flushed)"
    "length (started flushed) < length (started (scheduleNextBuffer (atTime (1 / 100)) flushed))"
    "sourceId (last (started (scheduleNextBuffer (atTime (1 / 100)) flushed))) = 0"
    by (simp_all add: flushed_pass) (simp add: flushed_def)
  have f: "completions flushed = 0" "timers flushed = [\<lparr>delay = 50, action = CbScheduleNextBuffer\<rparr>]"
    by (simp_all add: flushed_def)
  show ?thesis
    using pass_end_of_stream [of "atTime (1 / 100)" flushed] h f by simp
qed

subsection \<open>C2: cutting a chunk into frames\<close>

lemma startPlayback_isPlaying: "processingBuffer s \<noteq> [] \<Longrightarrow> isPlaying (startPlayback e s)"
  using scheduleLoop_unchanged
    [of e "s\<lparr>isPlaying := True, scheduledTime := currentTime e + initialBufferTime s\<rparr>"]
  by (simp add: startPlayback_def scheduleNextBuffer_def finishPass_def)

lemma startPlayback_empty_queue:
  "audioQueue s = [] \<Longrightarrow>
   audioQueue (startPlayback e s) = [] \<and> started (startPlayback e s) = started s"
  by (simp add: startPlayback_def scheduleNextBuffer_def finishPass_def scheduleLoop_done
      scheduleCond_def)

lemma spec_frames_exact: "0 < length buf \<Longrightarrow> spec_frames (length buf) buf = [buf]"
  by (simp add: spec_frames_def)

lemma samplesOf_nth:
  "j < length chunk div 2 \<Longrightarrow> samplesOf chunk ! j = spec_sample chunk j"
  by (simp add: samplesOf_def pcm16ToFloat32_fst)

lemma samplesOf_take: "samplesOf (take (2 * (length chunk div 2)) chunk) = samplesOf chunk"
proof -
  have n: "length (take (2 * (length chunk div 2)) chunk) div 2 = length chunk div 2"
    by (simp add: min_def)
  have "map (spec_sample (take (2 * (length chunk div 2)) chunk)) [0 ..< length chunk div 2] =
        map (spec_sample chunk) [0 ..< length chunk div 2]"
    by (rule map_cong [OF refl]) (simp add: spec_sample_def)
  then show ?thesis
    by (simp only: samplesOf_def pcm16ToFloat32_fst n)
qed

lemma addPCM16_total:
  assumes "0 < bufferSize s"
  shows "\<exists>s'. addPCM16 e chunk s = Some s' \<and>
     concat (dequeued s') @ concat (audioQueue s') @ processingBuffer s' =
     concat (dequeued s) @ concat (audioQueue s) @ processingBuffer s @ samplesOf chunk \<and>
     length (processingBuffer s') =
       (length (processingBuffer s) + length (samplesOf chunk)) mod bufferSize s \<and>
     bufferSize s' = bufferSize s \<and> completions s' = completions s \<and>
     isStreamComplete s' = isStreamComplete s"
proof -
  let ?buf = "processingBuffer s @ samplesOf chunk"
  let ?s1 = "(startRecognition e s)
          \<lparr>audioQueue := audioQueue s @ spec_frames (bufferSize s) ?buf,
           processingBuffer := drop (bufferSize s * (length ?buf div bufferSize s)) ?buf\<rparr>"
  have a: "addPCM16 e chunk s = Some (startPlayback e ?s1)"
    using assms by (rule addPCM16_Some)
  have "concat (dequeued (startPlayback e ?s1) @ audioQueue (startPlayback e ?s1)) =
        concat (dequeued ?s1 @ audioQueue ?s1)"
    by (simp only: startPlayback_total)
  then have c: "concat (dequeued (startPlayback e ?s1)) @ concat (audioQueue (startPlayback e ?s1)) =
        concat (dequeued s) @ concat (audioQueue s) @ concat (spec_frames (bufferSize s) ?buf)"
    by (simp add: dequeued_def startRecognition_unchanged)
  have p: "processingBuffer (startPlayback e ?s1) =
           drop (bufferSize s * (length ?buf div bufferSize s)) ?buf"
    by (simp add: startPlayback_unchanged del: drop_append)
  have "concat (dequeued (startPlayback e ?s1)) @ concat (audioQueue (startPlayback e ?s1)) @
          processingBuffer (startPlayback e ?s1) =
        concat (dequeued s) @ concat (audioQueue s) @
          (concat (spec_frames (bufferSize s) ?buf) @
           drop (bufferSize s * (length ?buf div bufferSize s)) ?buf)"
    using c by (simp only: p append_assoc [symmetric])
  also have "\<dots> = concat (dequeued s) @ concat (audioQueue s) @ ?buf"
    using assms by (simp only: concat_spec_frames)
  finally have total: "concat (dequeued (startPlayback e ?s1)) @
      concat (audioQueue (startPlayback e ?s1)) @ processingBuffer (startPlayback e ?s1) =
      concat (dequeued s) @ concat (audioQueue s) @ processingBuffer s @ samplesOf chunk"
    by simp
  have len: "length (processingBuffer (startPlayback e ?s1)) =
       (length (processingBuffer s) + length (samplesOf chunk)) mod bufferSize s"
    using length_drop_full [of "bufferSize s" ?buf]
    by (simp add: startPlayback_unchanged del: length_drop drop_append)
  have rest: "bufferSize (startPlayback e ?s1) = bufferSize s"
    "completions (startPlayback e ?s1) = completions s"
    "isStreamComplete (startPlayback e ?s1) = isStreamComplete s"
    by (simp_all add: startPlayback_unchanged startRecognition_unchanged)
  show ?thesis
    using a total len rest by (intro exI [of _ "startPlayback e ?s1"]) simp
qed

text \<open>
  C2. Let a chunk of an even number \<open>N\<close> of bytes be given to addPCM16 on a streamer with
  an empty accumulation buffer and \<open>bufferSize = B > 0\<close>. The call returns. Lines 404-425
  append exactly \<open>(N div 2) div B\<close> frames to the queue, each of \<open>B\<close> samples (the
  successive blocks of the chunk's samples), and leave \<open>(N div 2) mod B\<close> samples in the
  accumulation buffer, which is what the buffer holds when the call returns. A first
  scheduling pass run by the same call only moves frames from the head of the queue to
  the started sources: the dequeued frames followed by the queued ones are the queue as
  line 425 left it.
\<close>

theorem addPCM16_chunking:
  assumes "even (length chunk)" and "processingBuffer s = []" and "0 < bufferSize s"
  shows "\<exists>s1 s'.
     rebuffer chunk (startRecognition e s) = Some s1 \<and>
     addPCM16 e chunk s = Some s' \<and>
     audioQueue s1 = audioQueue s @ spec_frames (bufferSize s) (samplesOf chunk) \<and>
     length (spec_frames (bufferSize s) (samplesOf chunk)) = (length chunk div 2) div bufferSize s \<and>
     (\<forall>f \<in> set (spec_frames (bufferSize s) (samplesOf chunk)). length f = bufferSize s) \<and>
     length (processingBuffer s1) = (length chunk div 2) mod bufferSize s \<and>
     processingBuffer s' = processingBuffer s1 \<and>
     dequeued s' @ audioQueue s' = dequeued s @ audioQueue s1"
proof -
  let ?s1 = "(startRecognition e s)
          \<lparr>audioQueue := audioQueue s @ spec_frames (bufferSize s) (samplesOf chunk),
           processingBuffer :=
             drop (bufferSize s * (length (samplesOf chunk) div bufferSize s)) (samplesOf chunk)\<rparr>"
  have r: "rebuffer chunk (startRecognition e s) = Some ?s1"
    using assms(2,3) by (simp add: rebuffer_Some startRecognition_unchanged)
  have a: "addPCM16 e chunk s = Some (startPlayback e ?s1)"
    using assms(2,3) by (simp add: addPCM16_Some)
  have q: "audioQueue ?s1 = audioQueue s @ spec_frames (bufferSize s) (samplesOf chunk)"
    by simp
  have n: "length (spec_frames (bufferSize s) (samplesOf chunk)) = (length chunk div 2) div bufferSize s"
    by (simp add: length_spec_frames length_samplesOf)
  have f: "\<forall>f \<in> set (spec_frames (bufferSize s) (samplesOf chunk)). length f = bufferSize s"
    by (simp add: spec_frames_full)
  have b: "length (processingBuffer ?s1) = (length chunk div 2) mod bufferSize s"
    using length_drop_full [of "bufferSize s" "samplesOf chunk"]
    by (simp add: length_samplesOf del: length_drop)
  have p: "processingBuffer (startPlayback e ?s1) = processingBuffer ?s1"
    by (rule startPlayback_unchanged)
  have d: "dequeued (startPlayback e ?s1) @ audioQueue (startPlayback e ?s1) = dequeued s @ audioQueue ?s1"
    using startPlayback_total [of e ?s1]
    by (simp add: dequeued_def startRecognition_unchanged)
  show ?thesis
  proof (intro exI conjI)
    show "rebuffer chunk (startRecognition e s) = Some ?s1" by (rule r)
    show "addPCM16 e chunk s = Some (startPlayback e ?s1)" by (rule a)
  qed (rule q n f b p d)+
qed

theorem addPCM16_chunking_witness:
  "even (length (replicate 15362 (0 :: byte))) \<and>
   processingBuffer (newAudioStreamer 24000 False) = [] \<and>
   0 < bufferSize (newAudioStreamer 24000 False) \<and>
   (\<exists>s1 s'.
      rebuffer (replicate 15362 0) (startRecognition (atTime 0) (newAudioStreamer 24000 False)) = Some s1 \<and>
      addPCM16 (atTime 0) (replicate 15362 0) (newAudioStreamer 24000 False) = Some s' \<and>
      audioQueue s1 = [replicate 7680 0] \<and>
      length (processingBuffer s') = 1 \<and>
      dequeued s' @ audioQueue s' = [replicate 7680 0])"
proof -
  have h: "even (length (replicate 15362 (0 :: byte)))"
    "processingBuffer (newAudioStreamer 24000 False) = []"
    "0 < bufferSize (newAudioStreamer 24000 False)"
    by (simp_all add: newAudioStreamer_def)
  have v: "spec_frames 7680 (samplesOf (replicate 15362 0)) = [replicate 7680 0]"
    "audioQueue (newAudioStreamer 24000 False) = []"
    "dequeued (newAudioStreamer 24000 False) = []"
    "bufferSize (newAudioStreamer 24000 False) = 7680"
    by (simp_all add: newAudioStreamer_def samplesOf_zeros spec_frames_def dequeued_def)
  from addPCM16_chunking [OF h, of "atTime 0"] obtain s1 s' where
    "rebuffer (replicate 15362 0) (startRecognition (atTime 0) (newAudioStreamer 24000 False)) = Some s1"
    "addPCM16 (atTime 0) (replicate 15362 0) (newAudioStreamer 24000 False) = Some s'"
    "audioQueue s1 = [replicate 7680 0]"
    "length (processingBuffer s') = 1"
    "dequeued s' @ audioQueue s' = [replicate 7680 0]"
    by (auto simp: v)
  then show ?thesis using h by blast
qed

subsection \<open>C3 and C7: two half frames; conversion of a chunk\<close>

text \<open>
  C3 as stated fails: a chunk of 15360 bytes is 7680 samples, not 3840. On the streamer
  the constructor builds, the first call already cuts one full frame, leaves the
  accumulation buffer empty and starts the frame.
\<close>

theorem chunk_15360_counterexample:
  "length (samplesOf (replicate 15360 0)) = 7680 \<and>
   rebuffer (replicate 15360 0) (newAudioStreamer 24000 False) =
     Some ((newAudioStreamer 24000 False)\<lparr>audioQueue := [replicate 7680 0]\<rparr>) \<and>
   addPCM16 (atTime 0) (replicate 15360 0) (newAudioStreamer 24000 False) =
     Some \<lparr>audioQueue = [], isPlaying = True, sampleRate = 24000,
      bufferSize = 7680, processingBuffer = [], scheduledTime = 21 / 50,
      gainNode = \<lparr>gainId = 0, automation = []\<rparr>,
      isStreamComplete = False, initialBufferTime = 1 / 10,
      endOfQueueAudioSource = Some 0, speechRecognizer = False,
      isRecognitionActive = False, processor = False,
      started = [\<lparr>sourceId = 0, buffer = replicate 7680 0, startTime = 1 / 10,
                  onended = True, toGain = 0, toProcessor = False, played = False\<rparr>],
      timers = [], engineCalls = [], completions = 0\<rparr>"
proof (intro conjI)
  show "length (samplesOf (replicate 15360 0)) = 7680"
    by (simp add: samplesOf_zeros)
  show "rebuffer (replicate 15360 0) (newAudioStreamer 24000 False) =
     Some ((newAudioStreamer 24000 False)\<lparr>audioQueue := [replicate 7680 0]\<rparr>)"
    by (simp add: rebuffer_Some newAudioStreamer_def samplesOf_zeros spec_frames_def)
  show "addPCM16 (atTime 0) (replicate 15360 0) (newAudioStreamer 24000 False) =
     Some \<lparr>audioQueue = [], isPlaying = True, sampleRate = 24000,
      bufferSize = 7680, processingBuffer = [], scheduledTime = 21 / 50,
      gainNode = \<lparr>gainId = 0, automation = []\<rparr>,
      isStreamComplete = False, initialBufferTime = 1 / 10,
      endOfQueueAudioSource = Some 0, speechRecognizer = False,
      isRecognitionActive = False, processor = False,
      started = [\<lparr>sourceId = 0, buffer = replicate 7680 0, startTime = 1 / 10,
                  onended = True, toGain = 0, toProcessor = False, played = False\<rparr>],
      timers = [], engineCalls = [], completions = 0\<rparr>"
    by (simp add: call_eval pass_eval)
qed

text \<open>
  C3 (amended). Starting from an empty accumulation buffer and an empty frame queue with
  \<open>bufferSize = 7680\<close>, a chunk of 7680 bytes (3840 samples) yields no frame and leaves
  its 3840 samples in the accumulation buffer; a second chunk of 7680 bytes then yields
  exactly one full frame of 7680 samples (the samples of the first chunk followed by
  those of the second), which waits in the queue, and leaves the accumulation buffer
  empty.
\<close>

theorem two_half_frames:
  assumes "length c1 = 7680" and "length c2 = 7680" and "bufferSize s = 7680"
    and "processingBuffer s = []" and "audioQueue s = []"
  shows "\<exists>s1 s2.
     addPCM16 e1 c1 s = Some s1 \<and>
     audioQueue s1 = [] \<and> started s1 = started s \<and>
     processingBuffer s1 = samplesOf c1 \<and> length (processingBuffer s1) = 3840 \<and>
     addPCM16 e2 c2 s1 = Some s2 \<and>
     audioQueue s2 = [samplesOf c1 @ samplesOf c2] \<and> started s2 = started s \<and>
     length (samplesOf c1 @ samplesOf c2) = 7680 \<and>
     processingBuffer s2 = []"
proof -
  have l1: "length (samplesOf c1) = 3840" and l2: "length (samplesOf c2) = 3840"
    using assms(1,2) by (simp_all add: length_samplesOf)
  let ?a = "(startRecognition e1 s)\<lparr>audioQueue := [], processingBuffer := samplesOf c1\<rparr>"
  have a1: "addPCM16 e1 c1 s = Some (startPlayback e1 ?a)"
    using assms(3,4,5) l1 by (simp add: addPCM16_Some spec_frames_short)
  have ne: "processingBuffer ?a \<noteq> []" using l1 by auto
  have q1: "audioQueue (startPlayback e1 ?a) = []" "started (startPlayback e1 ?a) = started s"
    using startPlayback_empty_queue [of ?a e1] by (simp_all add: startRecognition_unchanged)
  have p1: "processingBuffer (startPlayback e1 ?a) = samplesOf c1"
    by (simp add: startPlayback_unchanged)
  have b1: "bufferSize (startPlayback e1 ?a) = 7680"
    using assms(3) by (simp add: startPlayback_unchanged startRecognition_unchanged)
  have pl: "isPlaying (startPlayback e1 ?a)"
    using ne by (rule startPlayback_isPlaying)
  let ?s1 = "startPlayback e1 ?a"
  let ?b = "(startRecognition e2 ?s1)
     \<lparr>audioQueue := [samplesOf c1 @ samplesOf c2], processingBuffer := []\<rparr>"
  have f: "spec_frames 7680 (samplesOf c1 @ samplesOf c2) = [samplesOf c1 @ samplesOf c2]"
    using spec_frames_exact [of "samplesOf c1 @ samplesOf c2"] l1 l2 by simp
  have "addPCM16 e2 c2 ?s1 = Some (startPlayback e2 ?b)"
    using b1 q1(1) p1 l1 l2 f by (simp add: addPCM16_Some)
  moreover have "startPlayback e2 ?b = ?b"
    using pl by (simp add: startPlayback_playing startRecognition_unchanged)
  ultimately have a2: "addPCM16 e2 c2 ?s1 = Some ?b" by simp
  have q2: "audioQueue ?b = [samplesOf c1 @ samplesOf c2]" "started ?b = started s"
    "processingBuffer ?b = []"
    using q1(2) by (simp_all add: startRecognition_unchanged)
  show ?thesis
  proof (intro exI conjI)
    show "addPCM16 e1 c1 s = Some ?s1" by (rule a1)
    show "addPCM16 e2 c2 ?s1 = Some ?b" by (rule a2)
    show "length (processingBuffer ?s1) = 3840" by (simp only: p1 l1)
    show "length (samplesOf c1 @ samplesOf c2) = 7680" using l1 l2 by simp
  qed (rule q1 p1 q2)+
qed

theorem two_half_frames_witness:
  "length (replicate 7680 (0 :: byte)) = 7680 \<and>
   bufferSize (newAudioStreamer 24000 False) = 7680 \<and>
   processingBuffer (newAudioStreamer 24000 False) = [] \<and>
   audioQueue (newAudioStreamer 24000 False) = [] \<and>
   (\<exists>s1 s2.
     addPCM16 (atTime 0) (replicate 7680 0) (newAudioStreamer 24000 False) = Some s1 \<and>
     audioQueue s1 = [] \<and> started s1 = [] \<and>
     processingBuffer s1 = replicate 3840 0 \<and>
     addPCM16 (atTime (1 / 10)) (replicate 7680 0) s1 = Some s2 \<and>
     audioQueue s2 = [replicate 7680 0] \<and> started s2 = [] \<and>
     processingBuffer s2 = [])"
proof -
  have h: "length (replicate 7680 (0 :: byte)) = 7680"
    "bufferSize (newAudioStreamer 24000 False) = 7680"
    "processingBuffer (newAudioStreamer 24000 False) = []"
    "audioQueue (newAudioStreamer 24000 False) = []"
    by (simp_all add: newAudioStreamer_def)
  have v: "samplesOf (replicate 7680 0) = replicate 3840 0"
    "replicate 3840 (0 :: real) @ replicate 3840 0 = replicate 7680 0"
    "started (newAudioStreamer 24000 False) = []"
    by (simp_all add: samplesOf_zeros newAudioStreamer_def replicate_add [symmetric])
  from two_half_frames [OF h(1) h(1) h(2) h(3) h(4), of "atTime 0" "atTime (1 / 10)"]
  obtain s1 s2 where
    "addPCM16 (atTime 0) (replicate 7680 0) (newAudioStreamer 24000 False) = Some s1"
    "audioQueue s1 = []" "started s1 = []"
    "processingBuffer s1 = replicate 3840 0"
    "addPCM16 (atTime (1 / 10)) (replicate 7680 0) s1 = Some s2"
    "audioQueue s2 = [replicate 7680 0]" "started s2 = []"
    "processingBuffer s2 = []"
    unfolding v by blast
  then show ?thesis using h by blast
qed

text \<open>
  C7. For every chunk, of odd length too, addPCM16 returns, on a streamer with
  \<open>bufferSize > 0\<close> as the constructor builds it: the only read that raises, the
  \<^verbatim>\<open>getInt16\<close> at a trailing odd byte, raises inside the try of lines 408-413, so the
  RangeError is logged and the byte is dropped. The samples of the chunk are those of the
  chunk without its trailing odd byte: one for each pair of bytes, the signed 16-bit
  integer of the little-endian pair divided by 32768, at least -1 and less than 1. They
  are what the call adds, in order, after the samples the streamer already holds.
\<close>

theorem addPCM16_conversion:
  assumes "0 < bufferSize s"
  shows "(\<exists>s'. addPCM16 e chunk s = Some s' \<and>
            concat (dequeued s') @ concat (audioQueue s') @ processingBuffer s' =
            concat (dequeued s) @ concat (audioQueue s) @ processingBuffer s @ samplesOf chunk) \<and>
         snd (pcm16ToFloat32 chunk) = (if odd (length chunk) then [RangeError] else []) \<and>
         samplesOf chunk = samplesOf (take (2 * (length chunk div 2)) chunk) \<and>
         length (samplesOf chunk) = length chunk div 2 \<and>
         (\<forall>j < length chunk div 2.
            samplesOf chunk ! j =
              real_of_int (sint (word_cat (chunk ! (2 * j + 1)) (chunk ! (2 * j)) :: 16 word)) / 32768 \<and>
            - 1 \<le> samplesOf chunk ! j \<and> samplesOf chunk ! j < 1)"
proof (intro conjI allI impI)
  show "\<exists>s'. addPCM16 e chunk s = Some s' \<and>
            concat (dequeued s') @ concat (audioQueue s') @ processingBuffer s' =
            concat (dequeued s) @ concat (audioQueue s) @ processingBuffer s @ samplesOf chunk"
    using addPCM16_total [OF assms, of e chunk] by blast
  show "snd (pcm16ToFloat32 chunk) = (if odd (length chunk) then [RangeError] else [])"
    by (rule pcm16ToFloat32_snd)
  show "samplesOf chunk = samplesOf (take (2 * (length chunk div 2)) chunk)"
    by (rule samplesOf_take [symmetric])
  show "length (samplesOf chunk) = length chunk div 2"
    by (rule length_samplesOf)
next
  fix j assume j: "j < length chunk div 2"
  then show "samplesOf chunk ! j =
      real_of_int (sint (word_cat (chunk ! (2 * j + 1)) (chunk ! (2 * j)) :: 16 word)) / 32768"
    by (simp add: samplesOf_nth spec_sample_def spec_int16_def)
  from j show "- 1 \<le> samplesOf chunk ! j" "samplesOf chunk ! j < 1"
    using spec_sample_range [of chunk j] by (simp_all add: samplesOf_nth)
qed

theorem addPCM16_conversion_witness:
  "0 < bufferSize (newAudioStreamer 24000 True) \<and>
   pcm16ToFloat32 [0, 128, 255] = ([- 1], [RangeError]) \<and>
   (\<exists>s'. addPCM16 (atTime 0) [0, 128, 255] (newAudioStreamer 24000 True) = Some s' \<and>
         concat (dequeued s') @ concat (audioQueue s') @ processingBuffer s' = [- 1]) \<and>
   samplesOf [0, 128, 255] = samplesOf [0, 128] \<and>
   - 1 \<le> samplesOf [0, 128, 255] ! 0 \<and> samplesOf [0, 128, 255] ! 0 < 1"
proof -
  have h: "0 < bufferSize (newAudioStreamer 24000 True)"
    by (simp add: newAudioStreamer_def)
  have v: "pcm16ToFloat32 [0, 128, 255] = ([- 1], [RangeError])"
    by (simp add: pcm16ToFloat32_def convertLoop.simps getInt16_def typedSet_def)
  have i: "dequeued (newAudioStreamer 24000 True) = []"
    "audioQueue (newAudioStreamer 24000 True) = []"
    "processingBuffer (newAudioStreamer 24000 True) = []"
    by (simp_all add: newAudioStreamer_def dequeued_def)
  have s: "samplesOf [0, 128, 255] = [- 1]"
    by (simp add: samplesOf_def v)
  have s': "samplesOf [0, 128] = [- 1]"
    by (simp add: samplesOf_def pcm16ToFloat32_def convertLoop.simps getInt16_def typedSet_def)
  show ?thesis
    using addPCM16_conversion [OF h, of "atTime 0" "[0, 128, 255]"] h v
    by (simp add: i s s')
qed

subsection \<open>C6: order of the samples\<close>

lemma spec_int16_inj:
  assumes "spec_int16 lo hi = spec_int16 lo' hi'"
  shows "lo = lo' \<and> hi = hi'"
proof -
  have "(word_cat hi lo :: 16 word) = word_cat hi' lo'"
    using assms by (simp add: spec_int16_def signed_word_eqI)
  then have "uint (word_cat hi lo :: 16 word) = uint (word_cat hi' lo' :: 16 word)"
    by simp
  then have e: "uint lo + 256 * uint hi = uint lo' + 256 * uint hi'"
    by (simp only: uint_word_cat_bytes)
  have b: "0 \<le> uint lo" "uint lo < 256" "0 \<le> uint lo'" "uint lo' < 256"
    by (simp_all add: uint_byte_bound)
  from e b have "uint hi = uint hi'" by arith
  with e have "uint lo = uint lo'" by simp
  with \<open>uint hi = uint hi'\<close> show ?thesis
    by (simp add: word_uint_eqI)
qed

lemma spec_sample_inj:
  "spec_sample a j = spec_sample b j \<Longrightarrow>
   a ! (2 * j) = b ! (2 * j) \<and> a ! (2 * j + 1) = b ! (2 * j + 1)"
  using spec_int16_inj [of "a ! (2 * j)" "a ! (2 * j + 1)" "b ! (2 * j)" "b ! (2 * j + 1)"]
  by (simp add: spec_sample_def)

lemma samplesOf_inj:
  assumes "even (length a)" and "even (length b)" and "samplesOf a = samplesOf b"
  shows "a = b"
proof (rule nth_equalityI)
  have "length (samplesOf a) = length (samplesOf b)" using assms(3) by simp
  then have n: "length a div 2 = length b div 2" by (simp add: length_samplesOf)
  with assms(1,2) show len: "length a = length b"
    by (metis dvd_mult_div_cancel)
  fix i assume i: "i < length a"
  then have j: "i div 2 < length a div 2" using assms(1) by presburger
  have "samplesOf a ! (i div 2) = samplesOf b ! (i div 2)" using assms(3) by simp
  then have "spec_sample a (i div 2) = spec_sample b (i div 2)"
    using j n by (simp add: samplesOf_nth)
  from spec_sample_inj [OF this]
  have p: "a ! (2 * (i div 2)) = b ! (2 * (i div 2))"
          "a ! (2 * (i div 2) + 1) = b ! (2 * (i div 2) + 1)"
    by simp_all
  show "a ! i = b ! i"
  proof (cases "even i")
    case True
    then have "2 * (i div 2) = i" by simp
    with p(1) show ?thesis by simp
  next
    case False
    then have "2 * (i div 2) + 1 = i" by presburger
    with p(2) show ?thesis by simp
  qed
qed

lemma ingested_Cons:
  "ingested (x # xs) = (case snd x of AddPCM16 chunk \<Rightarrow> samplesOf chunk | _ \<Rightarrow> []) @ ingested xs"
  by (cases x, cases "snd x") auto

lemma held_scheduleNextBuffer: "held (scheduleNextBuffer e s) = held s"
proof -
  have "concat (dequeued (scheduleNextBuffer e s) @ audioQueue (scheduleNextBuffer e s)) =
        concat (dequeued s @ audioQueue s)"
    by (simp only: scheduleNextBuffer_total)
  then show ?thesis
    by (simp add: held_def scheduleNextBuffer_unchanged)
qed

lemma held_complete: "held (completeStream e s) = held s"
proof (cases "processingBuffer s = []")
  case True
  then show ?thesis by (simp add: completeStream_def held_def dequeued_def)
next
  case False
  let ?s2 = "s\<lparr>isStreamComplete := True, audioQueue := audioQueue s @ [processingBuffer s],
               processingBuffer := []\<rparr>"
  have h: "held ?s2 = held s" by (simp add: held_def dequeued_def)
  have "completeStream e s = (if isPlaying s then scheduleNextBuffer e ?s2 else ?s2)"
    using False by (simp add: completeStream_def Let_def)
  then show ?thesis using h by (simp add: held_scheduleNextBuffer)
qed

lemma held_runCallback: "held (runCallback e cb s) = held s"
proof (cases cb)
  case CbScheduleNextBuffer
  then show ?thesis by (simp add: runCallback_def held_scheduleNextBuffer)
next
  case CbRestartRecognition
  then show ?thesis by (simp add: runCallback_def restartTimeout_def held_def dequeued_def)
next
  case CbSwapGainNode
  then show ?thesis by (simp add: runCallback_def swapGainTimeout_def held_def dequeued_def)
qed

lemma held_fireTimer: "fireTimer e k s = Some s' \<Longrightarrow> held s' = held s"
  by (auto simp: fireTimer_def held_runCallback split: if_splits)
     (simp add: held_def dequeued_def)

lemma held_sourceEnds: "sourceEnds e k s = Some s' \<Longrightarrow> held s' = held s"
  by (auto simp: sourceEnds_def endOfQueueHandler_def held_def dequeued_def Let_def comp_def
      split: option.splits if_splits intro!: arg_cong [where f = concat] map_cong)

lemma held_exec:
  assumes "exec x s = Some s'" and "\<not> isStop (snd x)"
  shows "held s' = held s @ ingested [x]"
proof (cases "snd x")
  case (AddPCM16 chunk)
  then have a: "addPCM16 (fst x) chunk s = Some s'" using assms(1) by (simp add: exec_def)
  then have "0 < bufferSize s" by (rule addPCM16_SomeD)
  from addPCM16_total [OF this, of "fst x" chunk] a
  have "held s' = held s @ samplesOf chunk" by (auto simp: held_def)
  then show ?thesis using AddPCM16 by (simp add: ingested_Cons)
next
  case Complete
  then show ?thesis using assms(1) by (auto simp: exec_def held_complete ingested_Cons)
next
  case Stop
  then show ?thesis using assms(2) by simp
next
  case Resume
  then show ?thesis using assms(1)
    by (auto simp: exec_def resume_def held_def dequeued_def ingested_Cons split: if_splits)
next
  case RestartRecognition
  then show ?thesis using assms(1)
    by (auto simp: exec_def restartRecognition_def held_def dequeued_def ingested_Cons)
next
  case (TimerFires k)
  then show ?thesis using assms(1) by (auto simp: exec_def held_fireTimer ingested_Cons)
next
  case (SourceEnds k)
  then show ?thesis using assms(1) by (auto simp: exec_def held_sourceEnds ingested_Cons)
next
  case (RecognizerError noSpeech)
  then show ?thesis using assms(1)
    by (auto simp: exec_def recognizerOnerror_def restartRecognition_def held_def dequeued_def
        ingested_Cons Let_def split: if_splits)
next
  case RecognizerEnd
  then show ?thesis using assms(1)
    by (auto simp: exec_def recognizerOnend_def restartRecognition_def held_def dequeued_def
        ingested_Cons Let_def split: if_splits)
qed

lemma ingested_append_single: "ingested (x # xs) = ingested [x] @ ingested xs"
  by (simp add: ingested_Cons)

lemma held_run:
  "run evs s = Some s' \<Longrightarrow> list_all (\<lambda>x. \<not> isStop (snd x)) evs \<Longrightarrow>
   held s' = held s @ ingested evs"
proof (induction evs arbitrary: s)
  case Nil
  then show ?case by simp
next
  case (Cons x evs)
  from Cons.prems(1) obtain s1 where x: "exec x s = Some s1" and r: "run evs s1 = Some s'"
    by (auto split: option.splits)
  have "held s1 = held s @ ingested [x]"
    using held_exec [OF x] Cons.prems(2) by simp
  moreover have "held s' = held s1 @ ingested evs"
    using Cons.IH [OF r] Cons.prems(2) by simp
  ultimately show ?case
    by (simp add: ingested_append_single [of x evs])
qed

lemma run_ingest_returns:
  "0 < bufferSize s \<Longrightarrow> list_all (\<lambda>x. isAddPCM16 (snd x)) evs \<Longrightarrow> \<exists>s'. run evs s = Some s'"
proof (induction evs arbitrary: s)
  case Nil
  then show ?case by simp
next
  case (Cons x evs)
  from Cons.prems(2) obtain chunk where c: "snd x = AddPCM16 chunk"
    by (cases "snd x") auto
  from addPCM16_total [OF Cons.prems(1), of "fst x" chunk] obtain s1 where
    s1: "addPCM16 (fst x) chunk s = Some s1" "bufferSize s1 = bufferSize s"
    by blast
  have "\<exists>s'. run evs s1 = Some s'"
    using Cons.IH [of s1] Cons.prems s1(2) by simp
  then show ?case using s1(1) c by (simp add: exec_def)
qed

lemma waiting_reached:
  "run [(atTime 0, AddPCM16 (replicate 15360 0)), (atTime 0, AddPCM16 (replicate 15360 0))]
     (newAudioStreamer 24000 False) = Some waiting"
  by (simp add: call_eval pass_eval waiting_def)

text \<open>
  C6 as stated fails while a frame waits in the queue. After two chunks of 15360 zero
  bytes the first frame has been taken for scheduling, the second is queued, the
  accumulation buffer is empty and no timer is pending: the dequeued frames followed by
  the accumulation buffer are half of the input.
\<close>

theorem queued_frame_counterexample:
  "run [(atTime 0, AddPCM16 (replicate 15360 0)), (atTime 0, AddPCM16 (replicate 15360 0))]
     (newAudioStreamer 24000 False) = Some waiting \<and>
   ingested [(atTime 0, AddPCM16 (replicate 15360 0)), (atTime 0, AddPCM16 (replicate 15360 0))] =
     replicate 15360 0 \<and>
   concat (dequeued waiting) @ processingBuffer waiting = replicate 7680 0 \<and>
   audioQueue waiting = [replicate 7680 0] \<and>
   timers waiting = [] \<and>
   concat (dequeued waiting) @ processingBuffer waiting \<noteq>
     ingested [(atTime 0, AddPCM16 (replicate 15360 0)), (atTime 0, AddPCM16 (replicate 15360 0))]"
proof -
  have i: "ingested [(atTime 0, AddPCM16 (replicate 15360 0)), (atTime 0, AddPCM16 (replicate 15360 0))] =
     replicate 15360 0"
    by (simp add: atTime_def samplesOf_zeros replicate_add [symmetric])
  have d: "concat (dequeued waiting) @ processingBuffer waiting = replicate 7680 0"
    "audioQueue waiting = [replicate 7680 0]" "timers waiting = []"
    by (simp_all add: waiting_def dequeued_def)
  have "length (replicate 7680 (0 :: real)) \<noteq> length (replicate 15360 (0 :: real))"
    by simp
  then have "replicate 7680 (0 :: real) \<noteq> replicate 15360 0"
    by (metis length_replicate)
  then show ?thesis
    using waiting_reached by (simp only: i d) simp
qed

text \<open>
  C6 (amended). In every session without a call of \<^verbatim>\<open>stop\<close> (addPCM16 calls in any
  number, with scheduling passes, \<^verbatim>\<open>complete\<close>, timers and end-of-playback events between them), the
  samples of the frames taken from the queue for scheduling, in the order they were
  taken, followed by those of the frames still queued and by the accumulation buffer,
  are the samples the streamer held before followed by the samples of all chunks in
  arrival order: nothing is reordered or dropped. Once every queued frame has been
  taken, the dequeued frames followed by the accumulation buffer are the whole input.
  A session of addPCM16 calls alone always runs to its end. The bytes can be read back
  from the samples: two chunks of even length with the same samples are the same chunk
  (a trailing odd byte has no sample, see C7).
\<close>

theorem ingest_order_preserved:
  assumes "list_all (\<lambda>x. \<not> isStop (snd x)) evs"
  shows "(run evs s = Some s' \<longrightarrow>
            held s' = held s @ ingested evs \<and>
            (audioQueue s' = [] \<longrightarrow>
               concat (dequeued s') @ processingBuffer s' = held s @ ingested evs)) \<and>
         (list_all (\<lambda>x. isAddPCM16 (snd x)) evs \<and> 0 < bufferSize s \<longrightarrow>
            (\<exists>s'. run evs s = Some s')) \<and>
         inj_on samplesOf {chunk. even (length chunk)}"
proof (intro conjI impI)
  assume r: "run evs s = Some s'"
  show h: "held s' = held s @ ingested evs"
    using held_run [OF r assms] .
  assume "audioQueue s' = []"
  then show "concat (dequeued s') @ processingBuffer s' = held s @ ingested evs"
    using h by (simp add: held_def)
next
  assume "list_all (\<lambda>x. isAddPCM16 (snd x)) evs \<and> 0 < bufferSize s"
  then show "\<exists>s'. run evs s = Some s'"
    using run_ingest_returns by blast
next
  show "inj_on samplesOf {chunk. even (length chunk)}"
    by (rule inj_onI) (simp add: samplesOf_inj)
qed

theorem ingest_order_preserved_witness:
  "list_all (\<lambda>x. \<not> isStop (snd x))
     [(atTime 0, AddPCM16 (replicate 15362 0)), (atTime (37 / 100), TimerFires 0),
      (atTime 5, AddPCM16 (replicate 15358 0))] \<and>
   run [(atTime 0, AddPCM16 (replicate 15362 0)), (atTime (37 / 100), TimerFires 0),
      (atTime 5, AddPCM16 (replicate 15358 0))]
     (newAudioStreamer 24000 False) = Some underrun \<and>
   dequeued underrun = [replicate 7680 0] \<and>
   audioQueue underrun = [replicate 7680 0] \<and>
   processingBuffer underrun = [] \<and>
   held underrun = replicate 7681 0 @ replicate 7679 0"
proof -
  have l: "list_all (\<lambda>x. \<not> isStop (snd x))
     [(atTime 0, AddPCM16 (replicate 15362 0)), (atTime (37 / 100), TimerFires 0),
      (atTime 5, AddPCM16 (replicate 15358 0))]"
    by simp
  have i: "ingested [(atTime 0, AddPCM16 (replicate 15362 0)), (atTime (37 / 100), TimerFires 0),
      (atTime 5, AddPCM16 (replicate 15358 0))]
           = replicate 7681 0 @ replicate 7679 0"
    by (simp add: atTime_def samplesOf_zeros)
  have h0: "held (newAudioStreamer 24000 False) = []"
    by (simp add: held_def newAudioStreamer_def dequeued_def)
  have u: "dequeued underrun = [replicate 7680 0]" "audioQueue underrun = [replicate 7680 0]"
    "processingBuffer underrun = []"
    by (simp_all add: underrun_def dequeued_def)
  show ?thesis
    using ingest_order_preserved [OF l, of "newAudioStreamer 24000 False" underrun]
      underrun_reached l u
    by (simp only: i h0) simp
qed

subsection \<open>C1: calls of onComplete\<close>

text \<open>
  C1 as stated fails. A chunk of 15360 zero bytes at clock 0 is one full frame, started
  for 0.1 to 0.42. \<^verbatim>\<open>complete\<close> at clock 0.05 finds the accumulation buffer empty and
  calls \<^verbatim>\<open>onComplete\<close> at once, before the frame has even begun to play; when the frame
  ends at 0.42 its end-of-queue handler calls \<^verbatim>\<open>onComplete\<close> a second time.
\<close>

theorem completion_twice_counterexample:
  "run [(atTime 0, AddPCM16 (replicate 15360 0)), (atTime (1 / 20), Complete)]
     (newAudioStreamer 24000 False) =
     Some \<lparr>audioQueue = [], isPlaying = True, sampleRate = 24000,
      bufferSize = 7680, processingBuffer = [], scheduledTime = 21 / 50,
      gainNode = \<lparr>gainId = 0, automation = []\<rparr>,
      isStreamComplete = True, initialBufferTime = 1 / 10,
      endOfQueueAudioSource = Some 0, speechRecognizer = False,
      isRecognitionActive = False, processor = False,
      started = [\<lparr>sourceId = 0, buffer = replicate 7680 0, startTime = 1 / 10,
                  onended = True, toGain = 0, toProcessor = False, played = False\<rparr>],
      timers = [], engineCalls = [], completions = 1\<rparr> \<and>
   run [(atTime 0, AddPCM16 (replicate 15360 0)), (atTime (1 / 20), Complete),
        (atTime (21 / 50), SourceEnds 0)]
     (newAudioStreamer 24000 False) =
     Some \<lparr>audioQueue = [], isPlaying = True, sampleRate = 24000,
      bufferSize = 7680, processingBuffer = [], scheduledTime = 21 / 50,
      gainNode = \<lparr>gainId = 0, automation = []\<rparr>,
      isStreamComplete = True, initialBufferTime = 1 / 10,
      endOfQueueAudioSource = None, speechRecognizer = False,
      isRecognitionActive = False, processor = False,
      started = [\<lparr>sourceId = 0, buffer = replicate 7680 0, startTime = 1 / 10,
                  onended = True, toGain = 0, toProcessor = False, played = True\<rparr>],
      timers = [], engineCalls = [], completions = 2\<rparr>"
  by (simp add: call_eval pass_eval)

text \<open>
  The end-of-queue handler does not wait for \<^verbatim>\<open>complete\<close> either. After a chunk of
  15362 zero bytes at clock 0 the only frame is started for 0.1 to 0.42 and one sample
  stays in the accumulation buffer; when the frame ends the queue is empty and
  \<^verbatim>\<open>onComplete\<close> is called, before \<^verbatim>\<open>complete\<close> is. \<^verbatim>\<open>complete\<close> at clock 1 then
  flushes the sample as the last frame, and the end of its source calls \<^verbatim>\<open>onComplete\<close>
  again.
\<close>

lemma completion_before_complete:
  "(\<exists>s. run [(atTime 0, AddPCM16 (replicate 15362 0)), (atTime (21 / 50), SourceEnds 0)]
          (newAudioStreamer 24000 False) = Some s \<and>
        \<not> isStreamComplete s \<and> processingBuffer s = [0] \<and> completions s = 1) \<and>
   (\<exists>s. run [(atTime 0, AddPCM16 (replicate 15362 0)), (atTime (21 / 50), SourceEnds 0),
           (atTime 1, Complete), (atTime (101 / 100), SourceEnds 1)]
          (newAudioStreamer 24000 False) = Some s \<and>
        audioQueue s = [] \<and> completions s = 2)"
  by (simp add: call_eval pass_eval replicate_7680)

lemma fireTimer_unchanged:
  assumes "fireTimer e k s = Some s'"
  shows "completions s' = completions s \<and> processingBuffer s' = processingBuffer s \<and>
         bufferSize s' = bufferSize s"
proof -
  from assms have k: "k < length (timers s)"
    and s': "s' = runCallback e (action (timers s ! k))
                   (s\<lparr>timers := take k (timers s) @ drop (Suc k) (timers s)\<rparr>)"
    by (auto simp: fireTimer_def split: if_splits)
  show ?thesis
    unfolding s'
    by (cases "action (timers s ! k)")
       (simp_all add: runCallback_def scheduleNextBuffer_unchanged restartTimeout_def
          swapGainTimeout_def)
qed

lemma feeds_exec:
  assumes "exec x s = Some s'" and "feeds (snd x)" and "length (processingBuffer s) < bufferSize s"
  shows "completions s' = completions s \<and> bufferSize s' = bufferSize s \<and>
         length (processingBuffer s') =
           (length (processingBuffer s) + length (ingested [x])) mod bufferSize s"
proof (cases "snd x")
  case (AddPCM16 chunk)
  then have a: "addPCM16 (fst x) chunk s = Some s'" using assms(1) by (simp add: exec_def)
  have "0 < bufferSize s" using assms(3) by simp
  from addPCM16_total [OF this, of "fst x" chunk] a
  show ?thesis using AddPCM16 by (auto simp: ingested_Cons)
next
  case (TimerFires k)
  then have "fireTimer (fst x) k s = Some s'" using assms(1) by (simp add: exec_def)
  from fireTimer_unchanged [OF this] show ?thesis
    using TimerFires assms(3) by (simp add: ingested_Cons)
qed (use assms(2) in simp_all)

lemma feeds_run:
  "run evs s = Some s' \<Longrightarrow> list_all (\<lambda>x. feeds (snd x)) evs \<Longrightarrow>
   length (processingBuffer s) < bufferSize s \<Longrightarrow>
   completions s' = completions s \<and> bufferSize s' = bufferSize s \<and>
   length (processingBuffer s') =
     (length (processingBuffer s) + length (ingested evs)) mod bufferSize s"
proof (induction evs arbitrary: s)
  case Nil
  then show ?case by simp
next
  case (Cons x evs)
  from Cons.prems(1) obtain s1 where x: "exec x s = Some s1" and r: "run evs s1 = Some s'"
    by (auto split: option.splits)
  have f: "feeds (snd x)" "list_all (\<lambda>x. feeds (snd x)) evs"
    using Cons.prems(2) by simp_all
  note a = feeds_exec [OF x f(1) Cons.prems(3)]
  have lt: "length (processingBuffer s1) < bufferSize s1"
    using a Cons.prems(3) by simp
  note b = Cons.IH [OF r f(2) lt]
  have "length (processingBuffer s') =
      ((length (processingBuffer s) + length (ingested [x])) mod bufferSize s +
        length (ingested evs)) mod bufferSize s"
    using a b by simp
  also have "\<dots> = (length (processingBuffer s) + length (ingested (x # evs))) mod bufferSize s"
    by (simp add: ingested_append_single [of x evs] mod_add_left_eq add.assoc)
  finally show ?case using a b by simp
qed

lemma completions_complete:
  "completions (completeStream e s) = completions s + (if processingBuffer s = [] then 1 else 0)"
  by (simp add: completeStream_def Let_def scheduleNextBuffer_unchanged)

lemma complete_flush:
  assumes "processingBuffer s \<noteq> []"
  shows "processingBuffer (completeStream e s) = [] \<and>
         dequeued (completeStream e s) @ audioQueue (completeStream e s) =
           dequeued s @ audioQueue s @ [processingBuffer s]"
proof -
  let ?s2 = "s\<lparr>isStreamComplete := True, audioQueue := audioQueue s @ [processingBuffer s],
               processingBuffer := []\<rparr>"
  have c: "completeStream e s = (if isPlaying s then scheduleNextBuffer e ?s2 else ?s2)"
    using assms by (simp add: completeStream_def Let_def)
  have "dequeued (scheduleNextBuffer e ?s2) @ audioQueue (scheduleNextBuffer e ?s2) =
        dequeued s @ audioQueue s @ [processingBuffer s]"
    using scheduleNextBuffer_total [of e ?s2] by (simp add: dequeued_def)
  then show ?thesis
    by (simp add: c scheduleNextBuffer_unchanged dequeued_def)
qed

text \<open>The engine's events touch the flag of the engine and the timers only.\<close>

lemma recognizer_events:
  assumes "exec x s = Some s'" and "snd x = RecognizerError noSpeech \<or> snd x = RecognizerEnd"
  shows "audioQueue s' = audioQueue s \<and> started s' = started s \<and>
         endOfQueueAudioSource s' = endOfQueueAudioSource s \<and>
         processingBuffer s' = processingBuffer s \<and> isPlaying s' = isPlaying s \<and>
         completions s' = completions s \<and> set (timers s) \<subseteq> set (timers s')"
  using assms
  by (auto simp: exec_def recognizerOnerror_def recognizerOnend_def restartRecognition_def Let_def
      split: if_splits)

text \<open>A scheduling pass leaves \<open>finished\<close> as it is; only the end-of-queue handler raises it.\<close>

lemma finished_scheduleHead: "finished (scheduleHead e s) = finished s"
  by (cases "audioQueue s") (simp_all add: scheduleHead_def finished_def Let_def)

lemma finished_scheduleLoop: "finished (scheduleLoop e s) = finished s"
proof (induction e s rule: scheduleLoop.induct)
  case (1 e s)
  show ?case
  proof (cases "scheduleCond e s")
    case True
    with 1 show ?thesis by (simp add: scheduleLoop_step finished_scheduleHead)
  next
    case False
    then show ?thesis by (simp add: scheduleLoop_done)
  qed
qed

lemma finished_scheduleNextBuffer: "finished (scheduleNextBuffer e s) = finished s"
proof -
  have "finished (scheduleNextBuffer e s) = finished (scheduleLoop e s)"
    by (simp add: finished_def scheduleLoop_scheduledTime_queue scheduleNextBuffer_started)
  then show ?thesis by (simp add: finished_scheduleLoop)
qed

lemma fireTimer_finished:
  assumes "fireTimer e k s = Some s'"
  shows "finished s' = finished s \<and> completions s' = completions s"
proof -
  let ?s = "s\<lparr>timers := take k (timers s) @ drop (Suc k) (timers s)\<rparr>"
  from assms have s': "s' = runCallback e (action (timers s ! k)) ?s"
    by (auto simp: fireTimer_def split: if_splits)
  have f: "finished ?s = finished s" by (simp add: finished_def)
  show ?thesis
  proof (cases "action (timers s ! k)")
    case CbScheduleNextBuffer
    then show ?thesis
      by (simp add: s' runCallback_def finished_scheduleNextBuffer f scheduleNextBuffer_unchanged)
  next
    case CbRestartRecognition
    then show ?thesis by (simp add: s' runCallback_def restartTimeout_def finished_def)
  next
    case CbSwapGainNode
    then show ?thesis by (simp add: s' runCallback_def swapGainTimeout_def finished_def)
  qed
qed

lemma sourceEnds_finished:
  assumes "sourceEnds e k s = Some s'"
  shows "completions s' = completions s + (if finished s' \<and> \<not> finished s then 1 else 0) \<and>
         (finished s \<longrightarrow> finished s')"
  using assms
  by (auto simp: sourceEnds_def endOfQueueHandler_def finished_def Let_def
      split: option.splits if_splits)

lemma plays_exec:
  assumes "exec x s = Some s'" and "plays (snd x)"
  shows "completions s' = completions s + (if finished s' \<and> \<not> finished s then 1 else 0) \<and>
         (finished s \<longrightarrow> finished s')"
proof (cases "snd x")
  case (TimerFires k)
  then have "fireTimer (fst x) k s = Some s'" using assms(1) by (simp add: exec_def)
  from fireTimer_finished [OF this] show ?thesis by simp
next
  case (SourceEnds k)
  then have "sourceEnds (fst x) k s = Some s'" using assms(1) by (simp add: exec_def)
  from sourceEnds_finished [OF this] show ?thesis .
next
  case (RecognizerError noSpeech)
  with recognizer_events [OF assms(1), of noSpeech]
  have "finished s' = finished s" "completions s' = completions s"
    by (simp_all add: finished_def)
  then show ?thesis by simp
next
  case RecognizerEnd
  with recognizer_events [OF assms(1)]
  have "finished s' = finished s" "completions s' = completions s"
    by (simp_all add: finished_def)
  then show ?thesis by simp
qed (use assms(2) in simp_all)

lemma plays_run:
  "run evs s = Some s' \<Longrightarrow> list_all (\<lambda>x. plays (snd x)) evs \<Longrightarrow>
   completions s' = completions s + (if finished s' \<and> \<not> finished s then 1 else 0) \<and>
   (finished s \<longrightarrow> finished s')"
proof (induction evs arbitrary: s)
  case Nil
  then show ?case by simp
next
  case (Cons x evs)
  from Cons.prems(1) obtain s1 where x: "exec x s = Some s1" and r: "run evs s1 = Some s'"
    by (auto split: option.splits)
  have p: "plays (snd x)" "list_all (\<lambda>x. plays (snd x)) evs"
    using Cons.prems(2) by simp_all
  note a = plays_exec [OF x p(1)]
  note b = Cons.IH [OF r p(2)]
  show ?case
    using a b by (cases "finished s"; cases "finished s1"; cases "finished s'") simp_all
qed


text \<open>The calls and callbacks of such a session keep \<open>tracking\<close>.\<close>

lemma map_sourceId_disarm [simp]: "map sourceId (disarm t srcs) = map sourceId srcs"
  by (simp add: disarm_def split: option.splits)

lemma tracking_cong:
  "started s' = started s \<Longrightarrow> audioQueue s' = audioQueue s \<Longrightarrow>
   endOfQueueAudioSource s' = endOfQueueAudioSource s \<Longrightarrow> tracking s' = tracking s"
  by (simp add: tracking_def cong: option.case_cong)

lemma tracking_scheduleHead: "tracking s \<Longrightarrow> tracking (scheduleHead e s)"
proof (cases "audioQueue s")
  case Nil
  then have "scheduleHead e s = s" by (simp add: scheduleHead_def)
  then show "tracking s \<Longrightarrow> tracking (scheduleHead e s)" by simp
next
  case (Cons a rest)
  assume "tracking s"
  then have "map sourceId (started s) = [0 ..< length (started s)]"
    by (simp add: tracking_def)
  then show "tracking (scheduleHead e s)"
    using Cons by (simp add: tracking_def scheduleHead_def Let_def)
qed

lemma tracking_scheduleLoop: "tracking s \<Longrightarrow> tracking (scheduleLoop e s)"
proof (induction e s rule: scheduleLoop.induct)
  case (1 e s)
  show ?case
  proof (cases "scheduleCond e s")
    case True
    with 1 show ?thesis by (simp add: scheduleLoop_step tracking_scheduleHead)
  next
    case False
    with 1 show ?thesis by (simp add: scheduleLoop_done)
  qed
qed

lemma tracking_scheduleNextBuffer: "tracking s \<Longrightarrow> tracking (scheduleNextBuffer e s)"
proof -
  have "tracking (scheduleNextBuffer e s) = tracking (scheduleLoop e s)"
    by (rule tracking_cong) (simp_all add: scheduleLoop_scheduledTime_queue scheduleNextBuffer_started)
  then show "tracking s \<Longrightarrow> tracking (scheduleNextBuffer e s)"
    by (simp add: tracking_scheduleLoop)
qed

lemma tracking_push:
  "tracking s \<Longrightarrow> started s' = started s \<Longrightarrow> audioQueue s' = audioQueue s @ fs \<Longrightarrow>
   endOfQueueAudioSource s' = endOfQueueAudioSource s \<Longrightarrow> tracking s'"
  by (simp add: tracking_def cong: option.case_cong)

lemma tracking_startPlayback: "tracking s \<Longrightarrow> tracking (startPlayback e s)"
proof -
  assume t: "tracking s"
  let ?s = "s\<lparr>isPlaying := True, scheduledTime := currentTime e + initialBufferTime s\<rparr>"
  have "tracking ?s = tracking s" by (rule tracking_cong) simp_all
  with t have "tracking (scheduleNextBuffer e ?s)" by (simp add: tracking_scheduleNextBuffer)
  with t show ?thesis by (simp add: startPlayback_def)
qed

lemma tracking_addPCM16:
  assumes "addPCM16 e chunk s = Some s'" and "tracking s"
  shows "tracking s'"
proof -
  from assms(1) have B: "0 < bufferSize s" by (rule addPCM16_SomeD)
  let ?buf = "processingBuffer s @ samplesOf chunk"
  let ?s1 = "(startRecognition e s)
          \<lparr>audioQueue := audioQueue s @ spec_frames (bufferSize s) ?buf,
           processingBuffer := drop (bufferSize s * (length ?buf div bufferSize s)) ?buf\<rparr>"
  have s': "s' = startPlayback e ?s1"
    using assms(1) addPCM16_Some [OF B, of e chunk] by simp
  have "tracking ?s1"
    by (rule tracking_push [OF assms(2), where fs = "spec_frames (bufferSize s) ?buf"])
       (simp_all add: startRecognition_unchanged)
  then show ?thesis unfolding s' by (rule tracking_startPlayback)
qed

lemma tracking_completeStream: "tracking s \<Longrightarrow> tracking (completeStream e s)"
proof (cases "processingBuffer s = []")
  case True
  assume t: "tracking s"
  have "tracking (completeStream e s) = tracking s"
    using True by (intro tracking_cong) (simp_all add: completeStream_def)
  with t show ?thesis by simp
next
  case False
  assume t: "tracking s"
  let ?s2 = "s\<lparr>isStreamComplete := True, audioQueue := audioQueue s @ [processingBuffer s],
               processingBuffer := []\<rparr>"
  have c: "completeStream e s = (if isPlaying s then scheduleNextBuffer e ?s2 else ?s2)"
    using False by (simp add: completeStream_def Let_def)
  have "tracking ?s2"
    by (rule tracking_push [OF t, where fs = "[processingBuffer s]"]) simp_all
  then show ?thesis by (simp add: c tracking_scheduleNextBuffer)
qed

lemma tracking_fireTimer:
  assumes "fireTimer e k s = Some s'" and "tracking s"
  shows "tracking s'"
proof -
  let ?s = "s\<lparr>timers := take k (timers s) @ drop (Suc k) (timers s)\<rparr>"
  from assms(1) have s': "s' = runCallback e (action (timers s ! k)) ?s"
    by (auto simp: fireTimer_def split: if_splits)
  have "tracking ?s = tracking s" by (rule tracking_cong) simp_all
  then have t: "tracking ?s" using assms(2) by simp
  show ?thesis
  proof (cases "action (timers s ! k)")
    case CbScheduleNextBuffer
    with t show ?thesis by (simp add: s' runCallback_def tracking_scheduleNextBuffer)
  next
    case CbRestartRecognition
    have "tracking (restartTimeout e ?s) = tracking ?s"
      by (rule tracking_cong) (simp_all add: restartTimeout_def)
    with t CbRestartRecognition show ?thesis by (simp add: s' runCallback_def)
  next
    case CbSwapGainNode
    have "tracking (swapGainTimeout ?s) = tracking ?s"
      by (rule tracking_cong) (simp_all add: swapGainTimeout_def)
    with t CbSwapGainNode show ?thesis by (simp add: s' runCallback_def)
  qed
qed

lemma map_sourceId_played:
  "map (sourceId \<circ> (\<lambda>x. if sourceId x = k then x\<lparr>played := True\<rparr> else x)) srcs =
   map sourceId srcs"
  by (induction srcs) simp_all

lemma find_sourceId:
  assumes "map sourceId srcs = [0 ..< length srcs]"
    and "find (\<lambda>src. sourceId src = k) srcs = Some src"
  shows "k < length srcs \<and> src = srcs ! k"
proof -
  from assms(2) obtain i where i: "i < length srcs" "sourceId (srcs ! i) = k" "src = srcs ! i"
    by (auto simp: find_Some_iff)
  have "sourceId (srcs ! i) = map sourceId srcs ! i" using i(1) by simp
  also have "\<dots> = i" using i(1) by (simp add: assms(1))
  finally show ?thesis using i by simp
qed

lemma sourceId_last:
  assumes "map sourceId srcs = [0 ..< length srcs]" and "srcs \<noteq> []"
  shows "sourceId (last srcs) = length srcs - 1"
proof -
  have "sourceId (last srcs) = last (map sourceId srcs)"
    using assms(2) by (simp add: last_map)
  also have "\<dots> = length srcs - 1"
    using assms(2) by (simp add: assms(1) last_upt)
  finally show ?thesis .
qed

lemma tracking_sourceEnds:
  assumes "sourceEnds e k s = Some s'" and "tracking s"
  shows "tracking s'"
proof -
  let ?f = "\<lambda>x. if sourceId x = k then x\<lparr>played := True\<rparr> else x"
  let ?s1 = "s\<lparr>started := map ?f (started s)\<rparr>"
  from assms(1) obtain src where
    src: "find (\<lambda>src. sourceId src = k) (started s) = Some src"
    and np: "\<not> played src"
    and s': "s' = (if onended src then endOfQueueHandler k ?s1 else ?s1)"
    by (auto simp: sourceEnds_def Let_def split: option.splits if_splits)
  from assms(2) have D: "map sourceId (started s) = [0 ..< length (started s)]"
    by (simp add: tracking_def)
  note f = find_sourceId [OF D src]
  then have ne: "started s \<noteq> []" by auto
  have lastf: "last (map ?f (started s)) = ?f (last (started s))"
    using ne by (simp add: last_map)
  have idl: "sourceId (last (started s)) = length (started s) - 1"
    by (rule sourceId_last [OF D ne])
  have srcl: "k = sourceId (last (started s)) \<Longrightarrow> src = last (started s)"
    using f idl ne by (simp add: last_conv_nth)
  show ?thesis
  proof (cases "audioQueue s = []")
    case False
    then have "s' = ?s1" by (simp add: s' endOfQueueHandler_def)
    then show ?thesis using False D by (simp add: tracking_def map_sourceId_played)
  next
    case True
    show ?thesis
    proof (cases "endOfQueueAudioSource s")
      case None
      then have e: "s' = ?s1" by (simp add: s' endOfQueueHandler_def)
      have "played (last (started s))"
        using assms(2) True None ne by (simp add: tracking_def)
      then show ?thesis
        using True None D ne lastf by (simp add: e tracking_def map_sourceId_played)
    next
      case (Some j)
      then have j: "j = sourceId (last (started s))" "onended (last (started s))"
        "\<not> played (last (started s))"
        using assms(2) True by (simp_all add: tracking_def)
      show ?thesis
      proof (cases "k = j")
        case True
        then have "src = last (started s)" using srcl j(1) by simp
        then have "s' = ?s1\<lparr>endOfQueueAudioSource := None, completions := completions ?s1 + 1\<rparr>"
          using j(2) \<open>audioQueue s = []\<close> Some True by (simp add: s' endOfQueueHandler_def)
        then show ?thesis
          using \<open>audioQueue s = []\<close> D ne lastf True j(1)
          by (simp add: tracking_def map_sourceId_played)
      next
        case False
        then have e: "s' = ?s1" using Some by (simp add: s' endOfQueueHandler_def)
        show ?thesis
          using \<open>audioQueue s = []\<close> Some D ne lastf False j
          by (simp add: e tracking_def map_sourceId_played)
      qed
    qed
  qed
qed

lemma tracking_exec:
  assumes "exec x s = Some s'" and "ingests (snd x) \<or> snd x = Complete" and "tracking s"
  shows "tracking s'"
proof (cases "snd x")
  case (AddPCM16 chunk)
  then have "addPCM16 (fst x) chunk s = Some s'" using assms(1) by (simp add: exec_def)
  from tracking_addPCM16 [OF this assms(3)] show ?thesis .
next
  case Complete
  then have "s' = completeStream (fst x) s" using assms(1) by (simp add: exec_def)
  then show ?thesis using assms(3) by (simp add: tracking_completeStream)
next
  case (TimerFires k)
  then have "fireTimer (fst x) k s = Some s'" using assms(1) by (simp add: exec_def)
  from tracking_fireTimer [OF this assms(3)] show ?thesis .
next
  case (SourceEnds k)
  then have "sourceEnds (fst x) k s = Some s'" using assms(1) by (simp add: exec_def)
  from tracking_sourceEnds [OF this assms(3)] show ?thesis .
next
  case (RecognizerError noSpeech)
  with recognizer_events [OF assms(1), of noSpeech] have "tracking s' = tracking s"
    by (intro tracking_cong) simp_all
  with assms(3) show ?thesis by simp
next
  case RecognizerEnd
  with recognizer_events [OF assms(1)] have "tracking s' = tracking s"
    by (intro tracking_cong) simp_all
  with assms(3) show ?thesis by simp
qed (use assms(2) in simp_all)

lemma tracking_run:
  "run evs s = Some s' \<Longrightarrow> list_all (\<lambda>x. ingests (snd x) \<or> snd x = Complete) evs \<Longrightarrow>
   tracking s \<Longrightarrow> tracking s'"
proof (induction evs arbitrary: s)
  case Nil
  then show ?case by simp
next
  case (Cons x evs)
  from Cons.prems(1) obtain s1 where x: "exec x s = Some s1" and r: "run evs s1 = Some s'"
    by (auto split: option.splits)
  have p: "ingests (snd x) \<or> snd x = Complete"
    "list_all (\<lambda>x. ingests (snd x) \<or> snd x = Complete) evs"
    using Cons.prems(2) by simp_all
  from Cons.IH [OF r p(2) tracking_exec [OF x p(1) Cons.prems(3)]] show ?case .
qed


text \<open>While samples wait in the accumulation buffer the session is playing.\<close>

lemma playing_scheduleNextBuffer:
  "(processingBuffer s \<noteq> [] \<longrightarrow> isPlaying s) \<Longrightarrow>
   (processingBuffer (scheduleNextBuffer e s) \<noteq> [] \<longrightarrow> isPlaying (scheduleNextBuffer e s))"
  using scheduleLoop_unchanged [of e s]
  by (simp add: scheduleNextBuffer_def finishPass_def)

lemma playing_exec:
  assumes "exec x s = Some s'" and "ingests (snd x)"
    and "processingBuffer s \<noteq> [] \<longrightarrow> isPlaying s"
  shows "processingBuffer s' \<noteq> [] \<longrightarrow> isPlaying s'"
proof (cases "snd x")
  case (AddPCM16 chunk)
  then have a: "addPCM16 (fst x) chunk s = Some s'" using assms(1) by (simp add: exec_def)
  then have B: "0 < bufferSize s" by (rule addPCM16_SomeD)
  let ?buf = "processingBuffer s @ samplesOf chunk"
  let ?s1 = "(startRecognition (fst x) s)
          \<lparr>audioQueue := audioQueue s @ spec_frames (bufferSize s) ?buf,
           processingBuffer := drop (bufferSize s * (length ?buf div bufferSize s)) ?buf\<rparr>"
  have s': "s' = startPlayback (fst x) ?s1"
    using a addPCM16_Some [OF B, of "fst x" chunk] by simp
  show ?thesis
  proof (cases "isPlaying ?s1")
    case True
    then show ?thesis by (simp add: s' startPlayback_playing)
  next
    case False
    let ?s2 = "?s1\<lparr>isPlaying := True,
                  scheduledTime := currentTime (fst x) + initialBufferTime ?s1\<rparr>"
    have "s' = scheduleNextBuffer (fst x) ?s2" using False by (simp add: s' startPlayback_def)
    moreover have "processingBuffer ?s2 \<noteq> [] \<longrightarrow> isPlaying ?s2" by simp
    ultimately show ?thesis using playing_scheduleNextBuffer [of ?s2 "fst x"] by simp
  qed
next
  case (TimerFires k)
  let ?s = "s\<lparr>timers := take k (timers s) @ drop (Suc k) (timers s)\<rparr>"
  from TimerFires assms(1) have s': "s' = runCallback (fst x) (action (timers s ! k)) ?s"
    by (auto simp: exec_def fireTimer_def split: if_splits)
  have p: "processingBuffer ?s \<noteq> [] \<longrightarrow> isPlaying ?s" using assms(3) by simp
  show ?thesis
  proof (cases "action (timers s ! k)")
    case CbScheduleNextBuffer
    with playing_scheduleNextBuffer [OF p, of "fst x"] show ?thesis
      by (simp add: s' runCallback_def)
  next
    case CbRestartRecognition
    with p show ?thesis by (simp add: s' runCallback_def restartTimeout_def)
  next
    case CbSwapGainNode
    with p show ?thesis by (simp add: s' runCallback_def swapGainTimeout_def)
  qed
next
  case (SourceEnds k)
  then have "sourceEnds (fst x) k s = Some s'" using assms(1) by (simp add: exec_def)
  then have "processingBuffer s' = processingBuffer s \<and> isPlaying s' = isPlaying s"
    by (auto simp: sourceEnds_def endOfQueueHandler_def Let_def split: option.splits if_splits)
  then show ?thesis using assms(3) by simp
next
  case (RecognizerError noSpeech)
  with recognizer_events [OF assms(1), of noSpeech] assms(3) show ?thesis by simp
next
  case RecognizerEnd
  with recognizer_events [OF assms(1)] assms(3) show ?thesis by simp
qed (use assms(2) in simp_all)

lemma playing_run:
  "run evs s = Some s' \<Longrightarrow> list_all (\<lambda>x. ingests (snd x)) evs \<Longrightarrow>
   (processingBuffer s \<noteq> [] \<longrightarrow> isPlaying s) \<Longrightarrow>
   (processingBuffer s' \<noteq> [] \<longrightarrow> isPlaying s')"
proof (induction evs arbitrary: s)
  case Nil
  then show ?case by simp
next
  case (Cons x evs)
  from Cons.prems(1) obtain s1 where x: "exec x s = Some s1" and r: "run evs s1 = Some s'"
    by (auto split: option.splits)
  have p: "ingests (snd x)" "list_all (\<lambda>x. ingests (snd x)) evs"
    using Cons.prems(2) by simp_all
  from Cons.IH [OF r p(2) playing_exec [OF x p(1) Cons.prems(3)]] show ?case .
qed

text \<open>After \<^verbatim>\<open>complete\<close> has flushed the buffer, the callbacks keep \<open>rearmed\<close>.\<close>

lemma rearmed_scheduleNextBuffer:
  "processingBuffer s = [] \<Longrightarrow> rearmed (scheduleNextBuffer e s)"
  using scheduleLoop_unchanged [of e s]
  by (simp add: rearmed_def scheduleNextBuffer_def finishPass_def)

lemma set_without_nth:
  assumes "k < length xs" and "t \<in> set xs" and "t \<noteq> xs ! k"
  shows "t \<in> set (take k xs @ drop (Suc k) xs)"
proof -
  have "xs = take k xs @ xs ! k # drop (Suc k) xs"
    using assms(1) by (rule id_take_nth_drop)
  then have "set xs = set (take k xs) \<union> insert (xs ! k) (set (drop (Suc k) xs))"
    by (metis set_append list.simps(15))
  with assms(2,3) show ?thesis by auto
qed

lemma rearmed_exec:
  assumes "exec x s = Some s'" and "plays (snd x)" and "rearmed s"
  shows "rearmed s'"
proof (cases "snd x")
  case (TimerFires k)
  let ?s = "s\<lparr>timers := take k (timers s) @ drop (Suc k) (timers s)\<rparr>"
  from TimerFires assms(1) have k: "k < length (timers s)"
    and s': "s' = runCallback (fst x) (action (timers s ! k)) ?s"
    by (auto simp: exec_def fireTimer_def split: if_splits)
  have b: "processingBuffer ?s = []" using assms(3) by (simp add: rearmed_def)
  have other: "rearmed ?s" if "action (timers s ! k) \<noteq> CbScheduleNextBuffer"
  proof -
    have "\<exists>t \<in> set (timers ?s). action t = CbScheduleNextBuffer" if "audioQueue s \<noteq> []"
    proof -
      from assms(3) that obtain t where t: "t \<in> set (timers s)" "action t = CbScheduleNextBuffer"
        by (auto simp: rearmed_def)
      with \<open>action (timers s ! k) \<noteq> CbScheduleNextBuffer\<close> have "t \<noteq> timers s ! k" by auto
      from set_without_nth [OF k t(1) this] t(2) show ?thesis by auto
    qed
    then show ?thesis using b by (simp add: rearmed_def)
  qed
  show ?thesis
  proof (cases "action (timers s ! k)")
    case CbScheduleNextBuffer
    with rearmed_scheduleNextBuffer [OF b, of "fst x"] show ?thesis
      by (simp add: s' runCallback_def)
  next
    case CbRestartRecognition
    with other show ?thesis by (simp add: s' runCallback_def restartTimeout_def rearmed_def)
  next
    case CbSwapGainNode
    with other show ?thesis by (simp add: s' runCallback_def swapGainTimeout_def rearmed_def)
  qed
next
  case (SourceEnds k)
  then have "sourceEnds (fst x) k s = Some s'" using assms(1) by (simp add: exec_def)
  then have "processingBuffer s' = processingBuffer s \<and> audioQueue s' = audioQueue s \<and>
      timers s' = timers s"
    by (auto simp: sourceEnds_def endOfQueueHandler_def Let_def split: option.splits if_splits)
  then show ?thesis using assms(3) by (simp add: rearmed_def)
next
  case (RecognizerError noSpeech)
  with recognizer_events [OF assms(1), of noSpeech] assms(3) show ?thesis
    by (auto simp: rearmed_def)
next
  case RecognizerEnd
  with recognizer_events [OF assms(1)] assms(3) show ?thesis
    by (auto simp: rearmed_def)
qed (use assms(2) in simp_all)

lemma rearmed_run:
  "run evs s = Some s' \<Longrightarrow> list_all (\<lambda>x. plays (snd x)) evs \<Longrightarrow> rearmed s \<Longrightarrow> rearmed s'"
proof (induction evs arbitrary: s)
  case Nil
  then show ?case by simp
next
  case (Cons x evs)
  from Cons.prems(1) obtain s1 where x: "exec x s = Some s1" and r: "run evs s1 = Some s'"
    by (auto split: option.splits)
  have p: "plays (snd x)" "list_all (\<lambda>x. plays (snd x)) evs"
    using Cons.prems(2) by simp_all
  from Cons.IH [OF r p(2) rearmed_exec [OF x p(1) Cons.prems(3)]] show ?case .
qed

text \<open>The callbacks neither add frames nor lose any.\<close>

lemma plays_frames_exec:
  assumes "exec x s = Some s'" and "plays (snd x)"
  shows "dequeued s' @ audioQueue s' = dequeued s @ audioQueue s"
proof (cases "snd x")
  case (TimerFires k)
  let ?s = "s\<lparr>timers := take k (timers s) @ drop (Suc k) (timers s)\<rparr>"
  from TimerFires assms(1) have s': "s' = runCallback (fst x) (action (timers s ! k)) ?s"
    by (auto simp: exec_def fireTimer_def split: if_splits)
  show ?thesis
  proof (cases "action (timers s ! k)")
    case CbScheduleNextBuffer
    with scheduleNextBuffer_total [of "fst x" ?s] show ?thesis
      by (simp add: s' runCallback_def dequeued_def)
  next
    case CbRestartRecognition
    then show ?thesis by (simp add: s' runCallback_def restartTimeout_def dequeued_def)
  next
    case CbSwapGainNode
    then show ?thesis by (simp add: s' runCallback_def swapGainTimeout_def dequeued_def)
  qed
next
  case (SourceEnds k)
  then have "sourceEnds (fst x) k s = Some s'" using assms(1) by (simp add: exec_def)
  from sourceEnds_frames [OF this] show ?thesis by simp
next
  case (RecognizerError noSpeech)
  with recognizer_events [OF assms(1), of noSpeech] show ?thesis by (simp add: dequeued_def)
next
  case RecognizerEnd
  with recognizer_events [OF assms(1)] show ?thesis by (simp add: dequeued_def)
qed (use assms(2) in simp_all)

lemma plays_frames_run:
  "run evs s = Some s' \<Longrightarrow> list_all (\<lambda>x. plays (snd x)) evs \<Longrightarrow>
   dequeued s' @ audioQueue s' = dequeued s @ audioQueue s"
proof (induction evs arbitrary: s)
  case Nil
  then show ?case by simp
next
  case (Cons x evs)
  from Cons.prems(1) obtain s1 where x: "exec x s = Some s1" and r: "run evs s1 = Some s'"
    by (auto split: option.splits)
  have p: "plays (snd x)" "list_all (\<lambda>x. plays (snd x)) evs"
    using Cons.prems(2) by simp_all
  from Cons.IH [OF r p(2)] plays_frames_exec [OF x p(1)] show ?case by simp
qed

lemma plays_ingests: "plays ev \<Longrightarrow> ingests ev"
  by (cases ev) simp_all

lemma run_append:
  "run (xs @ ys) s = (case run xs s of None \<Rightarrow> None | Some s' \<Rightarrow> run ys s')"
  by (induction xs arbitrary: s) (simp_all split: option.splits)

lemma streaming_reached:
  "run [(atTime 0, AddPCM16 (replicate 46082 0))] (newAudioStreamer 24000 False) = Some streaming"
  by (simp add: call_eval pass_eval streaming_def replicate_7680 upt_3)

lemma completed_reached: "completeStream (atTime (1 / 20)) streaming = completed"
  by (simp add: completeStream_def streaming_def completed_def atTime_def) (simp add: pass_eval)

lemma lastFrame_reached:
  "run [(atTime (37 / 100), TimerFires 0), (atTime (37 / 100), TimerFires 0),
        (atTime (21 / 50), SourceEnds 0),
        (atTime (69 / 100), TimerFires 0), (atTime (69 / 100), TimerFires 0),
        (atTime (37 / 50), SourceEnds 1),
        (atTime (101 / 100), TimerFires 0), (atTime (101 / 100), TimerFires 0),
        (atTime (53 / 50), SourceEnds 2)] completed = Some lastFrame"
  by (simp add: completed_def lastFrame_def call_eval pass_eval)

lemma lastFrame_ends:
  "run [(atTime (107 / 100), SourceEnds 3)] lastFrame =
     Some (lastFrame\<lparr>endOfQueueAudioSource := None,
             started := (started lastFrame)[3 := (started lastFrame ! 3)\<lparr>played := True\<rparr>],
             completions := 1\<rparr>)"
  by (simp add: lastFrame_def call_eval duration_def)


text \<open>
  C1 (amended). Take any session of a streamer built by the constructor that consists of
  addPCM16 calls and callbacks of the browser (timers, end-of-playback events, events of
  the engine), then one call of \<^verbatim>\<open>complete\<close>, then callbacks of the browser. If only
  addPCM16 calls and timer callbacks came before \<^verbatim>\<open>complete\<close>, \<^verbatim>\<open>onComplete\<close> has not
  been called by then. \<^verbatim>\<open>complete\<close> calls it itself, once and at once, exactly when the
  accumulation buffer is empty at that moment (whatever is still queued or playing).
  After \<^verbatim>\<open>complete\<close> it is called at most once more, by the end-of-queue handler. When
  \<^verbatim>\<open>complete\<close> finds samples in the accumulation buffer it does not call
  \<^verbatim>\<open>onComplete\<close>; it moves them to the queue as the last frame, and from then on: no
  frame is added or lost; a timer for another pass is pending as long as frames are
  queued; once the queue is empty the last source started plays that last frame and,
  until it has played to its end, is the tracked end-of-queue source and carries the
  handler; and \<^verbatim>\<open>onComplete\<close> has been called after \<^verbatim>\<open>complete\<close> exactly once if the
  queue is empty and that source has played to its end, and not at all otherwise.
\<close>

theorem completion_callback:
  assumes "run evs1 (newAudioStreamer rate recognizer) = Some s"
    and "list_all (\<lambda>x. ingests (snd x)) evs1"
    and "run evs2 (completeStream e s) = Some s'"
    and "list_all (\<lambda>x. plays (snd x)) evs2"
  shows "(list_all (\<lambda>x. feeds (snd x)) evs1 \<longrightarrow> completions s = 0) \<and>
         completions (completeStream e s) =
           completions s + (if processingBuffer s = [] then 1 else 0) \<and>
         completions s' =
           completions (completeStream e s) +
           (if finished s' \<and> \<not> finished (completeStream e s) then 1 else 0) \<and>
         (processingBuffer s \<noteq> [] \<longrightarrow>
            dequeued s' @ audioQueue s' = dequeued s @ audioQueue s @ [processingBuffer s] \<and>
            (audioQueue s' \<noteq> [] \<longrightarrow> (\<exists>t \<in> set (timers s'). action t = CbScheduleNextBuffer)) \<and>
            (audioQueue s' = [] \<longrightarrow>
               started s' \<noteq> [] \<and> buffer (last (started s')) = processingBuffer s \<and>
               (played (last (started s')) \<or>
                endOfQueueAudioSource s' = Some (sourceId (last (started s'))) \<and>
                onended (last (started s')))) \<and>
            completions s' =
              completions s +
              (if audioQueue s' = [] \<and> played (last (started s')) then 1 else 0))"
proof -
  let ?new = "newAudioStreamer rate recognizer"
  let ?c = "completeStream e s"
  have 1: "list_all (\<lambda>x. feeds (snd x)) evs1 \<longrightarrow> completions s = 0"
  proof
    assume f: "list_all (\<lambda>x. feeds (snd x)) evs1"
    have "length (processingBuffer ?new) < bufferSize ?new" by (simp add: newAudioStreamer_def)
    from feeds_run [OF assms(1) f this] show "completions s = 0"
      by (simp add: newAudioStreamer_def)
  qed
  have 2: "completions ?c = completions s + (if processingBuffer s = [] then 1 else 0)"
    by (rule completions_complete)
  have 3: "completions s' = completions ?c + (if finished s' \<and> \<not> finished ?c then 1 else 0)"
    using plays_run [OF assms(3,4)] by simp
  have 4: "dequeued s' @ audioQueue s' = dequeued s @ audioQueue s @ [processingBuffer s] \<and>
            (audioQueue s' \<noteq> [] \<longrightarrow> (\<exists>t \<in> set (timers s'). action t = CbScheduleNextBuffer)) \<and>
            (audioQueue s' = [] \<longrightarrow>
               started s' \<noteq> [] \<and> buffer (last (started s')) = processingBuffer s \<and>
               (played (last (started s')) \<or>
                endOfQueueAudioSource s' = Some (sourceId (last (started s'))) \<and>
                onended (last (started s')))) \<and>
            completions s' =
              completions s +
              (if audioQueue s' = [] \<and> played (last (started s')) then 1 else 0)"
    if ne: "processingBuffer s \<noteq> []"
  proof -
    let ?s2 = "s\<lparr>isStreamComplete := True, audioQueue := audioQueue s @ [processingBuffer s],
                 processingBuffer := []\<rparr>"
    have "processingBuffer ?new \<noteq> [] \<longrightarrow> isPlaying ?new" by (simp add: newAudioStreamer_def)
    from playing_run [OF assms(1,2) this] ne have pl: "isPlaying s" by simp
    then have c: "?c = scheduleNextBuffer e ?s2"
      using ne by (simp add: completeStream_def Let_def)
    have "\<not> finished ?s2" by (simp add: finished_def)
    then have nf: "\<not> finished ?c" by (simp add: c finished_scheduleNextBuffer)
    have "rearmed ?c" unfolding c by (rule rearmed_scheduleNextBuffer) simp
    from rearmed_run [OF assms(3,4) this]
    have a: "audioQueue s' \<noteq> [] \<longrightarrow> (\<exists>t \<in> set (timers s'). action t = CbScheduleNextBuffer)"
      by (simp add: rearmed_def)
    have fr: "dequeued s' @ audioQueue s' = dequeued s @ audioQueue s @ [processingBuffer s]"
      using plays_frames_run [OF assms(3,4)] complete_flush [OF ne, of e] by simp
    have "tracking ?new" by (simp add: tracking_def newAudioStreamer_def)
    moreover have "list_all (\<lambda>x. ingests (snd x) \<or> snd x = Complete) evs1"
      using assms(2) by (simp add: list_all_iff)
    ultimately have "tracking s" using tracking_run [OF assms(1)] by blast
    then have "tracking ?c" by (rule tracking_completeStream)
    moreover have "list_all (\<lambda>x. ingests (snd x) \<or> snd x = Complete) evs2"
      using assms(4) by (auto simp: list_all_iff plays_ingests)
    ultimately have tr: "tracking s'" using tracking_run [OF assms(3)] by blast
    have l: "started s' \<noteq> [] \<and> buffer (last (started s')) = processingBuffer s"
      if q: "audioQueue s' = []"
    proof -
      from fr q have d: "map buffer (started s') = dequeued s @ audioQueue s @ [processingBuffer s]"
        by (simp add: dequeued_def)
      then have n: "started s' \<noteq> []" by auto
      have "buffer (last (started s')) = last (map buffer (started s'))"
        using n by (simp add: last_map)
      then show ?thesis using n by (simp add: d)
    qed
    have tk: "played (last (started s')) \<or>
                endOfQueueAudioSource s' = Some (sourceId (last (started s'))) \<and>
                onended (last (started s'))"
      if q: "audioQueue s' = []"
    proof -
      from l q have n: "started s' \<noteq> []" by simp
      show ?thesis
        using tr q n by (cases "endOfQueueAudioSource s'") (simp_all add: tracking_def)
    qed
    have f: "finished s' \<longleftrightarrow> audioQueue s' = [] \<and> played (last (started s'))"
    proof (cases "audioQueue s' = []")
      case False
      then show ?thesis by (simp add: finished_def)
    next
      case True
      with l have n: "started s' \<noteq> []" by simp
      show ?thesis
        using tr True n by (cases "endOfQueueAudioSource s'") (simp_all add: tracking_def finished_def)
    qed
    have "completions s' = completions s + (if finished s' then 1 else 0)"
      using 2 3 nf ne by simp
    then have "completions s' =
        completions s + (if audioQueue s' = [] \<and> played (last (started s')) then 1 else 0)"
      by (simp add: f)
    with fr a l tk show ?thesis by blast
  qed
  show ?thesis
    using 1 2 3 4 by blast
qed

text \<open>
  The session of \<open>streaming\<close>, \<open>completed\<close> and \<open>lastFrame\<close>: \<^verbatim>\<open>complete\<close> leaves
  three frames queued, \<^verbatim>\<open>onComplete\<close> has not been called while the source of the last
  frame, the tracked end-of-queue source, is playing, and it has been called once when
  that source has ended at clock 1.07.
\<close>

theorem completion_callback_witness:
  "run [(atTime 0, AddPCM16 (replicate 46082 0))] (newAudioStreamer 24000 False) = Some streaming \<and>
   list_all (\<lambda>x. ingests (snd x)) [(atTime 0, AddPCM16 (replicate 46082 0))] \<and>
   list_all (\<lambda>x. feeds (snd x)) [(atTime 0, AddPCM16 (replicate 46082 0))] \<and>
   processingBuffer streaming = [0] \<and> completions streaming = 0 \<and>
   completeStream (atTime (1 / 20)) streaming = completed \<and>
   audioQueue completed = [replicate 7680 0, replicate 7680 0, [0]] \<and>
   completions completed = 0 \<and>
   run [(atTime (37 / 100), TimerFires 0), (atTime (37 / 100), TimerFires 0),
        (atTime (21 / 50), SourceEnds 0),
        (atTime (69 / 100), TimerFires 0), (atTime (69 / 100), TimerFires 0),
        (atTime (37 / 50), SourceEnds 1),
        (atTime (101 / 100), TimerFires 0), (atTime (101 / 100), TimerFires 0),
        (atTime (53 / 50), SourceEnds 2)] completed = Some lastFrame \<and>
   audioQueue lastFrame = [] \<and> buffer (last (started lastFrame)) = [0] \<and>
   \<not> played (last (started lastFrame)) \<and> completions lastFrame = 0 \<and>
   endOfQueueAudioSource lastFrame = Some (sourceId (last (started lastFrame))) \<and>
   (\<exists>s'. run [(atTime (37 / 100), TimerFires 0), (atTime (37 / 100), TimerFires 0),
              (atTime (21 / 50), SourceEnds 0),
              (atTime (69 / 100), TimerFires 0), (atTime (69 / 100), TimerFires 0),
              (atTime (37 / 50), SourceEnds 1),
              (atTime (101 / 100), TimerFires 0), (atTime (101 / 100), TimerFires 0),
              (atTime (53 / 50), SourceEnds 2), (atTime (107 / 100), SourceEnds 3)]
             completed = Some s' \<and>
         audioQueue s' = [] \<and> played (last (started s')) \<and> completions s' = 1)"
proof -
  let ?evs1 = "[(atTime 0, AddPCM16 (replicate 46082 0))]"
  let ?evsA = "[(atTime (37 / 100), TimerFires 0), (atTime (37 / 100), TimerFires 0),
        (atTime (21 / 50), SourceEnds 0),
        (atTime (69 / 100), TimerFires 0), (atTime (69 / 100), TimerFires 0),
        (atTime (37 / 50), SourceEnds 1),
        (atTime (101 / 100), TimerFires 0), (atTime (101 / 100), TimerFires 0),
        (atTime (53 / 50), SourceEnds 2)]"
  let ?evsB = "[(atTime (37 / 100), TimerFires 0), (atTime (37 / 100), TimerFires 0),
        (atTime (21 / 50), SourceEnds 0),
        (atTime (69 / 100), TimerFires 0), (atTime (69 / 100), TimerFires 0),
        (atTime (37 / 50), SourceEnds 1),
        (atTime (101 / 100), TimerFires 0), (atTime (101 / 100), TimerFires 0),
        (atTime (53 / 50), SourceEnds 2), (atTime (107 / 100), SourceEnds 3)]"
  let ?end = "lastFrame\<lparr>endOfQueueAudioSource := None,
             started := (started lastFrame)[3 := (started lastFrame ! 3)\<lparr>played := True\<rparr>],
             completions := 1\<rparr>"
  have i: "list_all (\<lambda>x. ingests (snd x)) ?evs1" "list_all (\<lambda>x. feeds (snd x)) ?evs1"
    by simp_all
  have pA: "list_all (\<lambda>x. plays (snd x)) ?evsA" and pB: "list_all (\<lambda>x. plays (snd x)) ?evsB"
    by simp_all
  have rA: "run ?evsA (completeStream (atTime (1 / 20)) streaming) = Some lastFrame"
    using lastFrame_reached by (simp only: completed_reached)
  have "run ?evsB completed = run (?evsA @ [(atTime (107 / 100), SourceEnds 3)]) completed"
    by simp
  also have "\<dots> = run [(atTime (107 / 100), SourceEnds 3)] lastFrame"
    by (simp only: run_append lastFrame_reached option.case)
  finally have rB0: "run ?evsB completed = Some ?end"
    by (simp only: lastFrame_ends)
  then have rB: "run ?evsB (completeStream (atTime (1 / 20)) streaming) = Some ?end"
    by (simp only: completed_reached)
  have f: "processingBuffer streaming = [0]" "completions streaming = 0"
    "audioQueue completed = [replicate 7680 0, replicate 7680 0, [0]]"
    "audioQueue lastFrame = []" "\<not> played (last (started lastFrame))"
    "audioQueue ?end = []" "played (last (started ?end))"
    by (simp_all add: streaming_def completed_def lastFrame_def)
  have ne: "processingBuffer streaming \<noteq> []" by (simp add: f)
  note A = completion_callback [OF streaming_reached i(1) rA pA]
  note B = completion_callback [OF streaming_reached i(1) rB pB]
  note A1 = A [THEN conjunct1, THEN mp, OF i(2)]
  note A2 = A [THEN conjunct2, THEN conjunct1]
  note A4 = A [THEN conjunct2, THEN conjunct2, THEN conjunct2, THEN mp, OF ne]
  note B4 = B [THEN conjunct2, THEN conjunct2, THEN conjunct2, THEN mp, OF ne]
  note Al = A4 [THEN conjunct2, THEN conjunct2, THEN conjunct1, THEN mp, OF f(4)]
  have c0: "completions completed = 0"
    using A2 A1 f(1) by (simp add: completed_reached)
  have cA: "completions lastFrame = 0"
    using A4 [THEN conjunct2, THEN conjunct2, THEN conjunct2] A1 f(4,5) by simp
  have bA: "buffer (last (started lastFrame)) = [0]"
    using Al f(1) by simp
  have tA: "endOfQueueAudioSource lastFrame = Some (sourceId (last (started lastFrame)))"
    using Al f(5) by simp
  have cB: "completions ?end = 1"
    using B4 [THEN conjunct2, THEN conjunct2, THEN conjunct2] A1 f(6,7) by simp
  have "\<exists>s'. run ?evsB completed = Some s' \<and>
         audioQueue s' = [] \<and> played (last (started s')) \<and> completions s' = 1"
    using rB0 f(6,7) cB by blast
  then show ?thesis
    using streaming_reached i completed_reached lastFrame_reached f(1,2,3,4,5) c0 cA bA tA by simp
qed

subsection \<open>C8: starts of the recognition engine\<close>

lemma listening_reached:
  "run [(atTime 0, AddPCM16 (replicate 2 0))] (newAudioStreamer 24000 True) = Some listening"
  by (simp add: call_eval pass_eval listening_def)

lemma addPCM16_engine:
  assumes "addPCM16 e chunk s = Some s'"
  shows "engineCalls s' = engineCalls (startRecognition e s) \<and>
         isRecognitionActive s' = isRecognitionActive (startRecognition e s)"
proof -
  have "0 < bufferSize s" using assms by (rule addPCM16_SomeD)
  from addPCM16_Some [OF this, of e chunk] assms show ?thesis
    by (auto simp: startPlayback_unchanged)
qed

lemma fireTimer_engine:
  assumes "fireTimer e k s = Some s'"
  shows "(isRecognitionActive s \<longrightarrow> engineCalls s' = engineCalls s \<and> isRecognitionActive s') \<and>
         (\<not> isRecognitionActive s \<longrightarrow>
            engineCalls s' = engineCalls s \<and> \<not> isRecognitionActive s' \<or>
            engineCalls s' = engineCalls s @ [StartThrew] \<and> \<not> isRecognitionActive s' \<or>
            engineCalls s' = engineCalls s @ [StartOk] \<and> isRecognitionActive s')"
proof -
  from assms have s': "s' = runCallback e (action (timers s ! k))
                   (s\<lparr>timers := take k (timers s) @ drop (Suc k) (timers s)\<rparr>)"
    by (auto simp: fireTimer_def split: if_splits)
  show ?thesis
    unfolding s'
    by (cases "action (timers s ! k)")
       (simp_all add: runCallback_def scheduleNextBuffer_unchanged restartTimeout_def
          swapGainTimeout_def)
qed

lemma startPath_exec:
  assumes "exec x s = Some s'" and "startPath (snd x)"
  shows "(isRecognitionActive s \<longrightarrow> engineCalls s' = engineCalls s \<and> isRecognitionActive s') \<and>
         (\<not> isRecognitionActive s \<longrightarrow>
            engineCalls s' = engineCalls s \<and> \<not> isRecognitionActive s' \<or>
            engineCalls s' = engineCalls s @ [StartThrew] \<and> \<not> isRecognitionActive s' \<or>
            engineCalls s' = engineCalls s @ [StartOk] \<and> isRecognitionActive s')"
proof (cases "snd x")
  case (AddPCM16 chunk)
  then have "addPCM16 (fst x) chunk s = Some s'" using assms(1) by (simp add: exec_def)
  from addPCM16_engine [OF this] show ?thesis
    by (simp add: startRecognition_def)
next
  case RestartRecognition
  then show ?thesis using assms(1) by (auto simp: exec_def restartRecognition_def)
next
  case (TimerFires k)
  then have "fireTimer (fst x) k s = Some s'" using assms(1) by (simp add: exec_def)
  then show ?thesis by (rule fireTimer_engine)
qed (use assms(2) in simp_all)

lemma active_exec:
  assumes "exec x s = Some s'" and "isRecognitionActive s"
  shows "filter isStart (engineCalls s') = filter isStart (engineCalls s)"
proof (cases "snd x")
  case (AddPCM16 chunk)
  then have "addPCM16 (fst x) chunk s = Some s'" using assms(1) by (simp add: exec_def)
  from addPCM16_engine [OF this] show ?thesis
    using assms(2) by (simp add: startRecognition_def)
next
  case Complete
  then show ?thesis using assms(1)
    by (auto simp: exec_def completeStream_def Let_def scheduleNextBuffer_unchanged)
next
  case Stop
  then show ?thesis using assms(1) by (auto simp: exec_def stop_def Let_def)
next
  case Resume
  then show ?thesis using assms(1) by (auto simp: exec_def resume_def split: if_splits)
next
  case RestartRecognition
  then show ?thesis using assms(1) by (auto simp: exec_def restartRecognition_def)
next
  case (TimerFires k)
  then have "fireTimer (fst x) k s = Some s'" using assms(1) by (simp add: exec_def)
  from fireTimer_engine [OF this] show ?thesis using assms(2) by simp
next
  case (SourceEnds k)
  then show ?thesis using assms(1)
    by (auto simp: exec_def sourceEnds_def endOfQueueHandler_def Let_def
        split: option.splits if_splits)
next
  case (RecognizerError noSpeech)
  then show ?thesis using assms(1)
    by (auto simp: exec_def recognizerOnerror_def restartRecognition_def Let_def split: if_splits)
next
  case RecognizerEnd
  then show ?thesis using assms(1)
    by (auto simp: exec_def recognizerOnend_def restartRecognition_def Let_def split: if_splits)
qed

lemma startPath_run:
  "run evs s = Some s' \<Longrightarrow> list_all (\<lambda>x. startPath (snd x)) evs \<Longrightarrow>
   (isRecognitionActive s \<longrightarrow> engineCalls s' = engineCalls s \<and> isRecognitionActive s') \<and>
   (\<exists>n. engineCalls s' = engineCalls s @ replicate n StartThrew \<or>
        engineCalls s' = engineCalls s @ replicate n StartThrew @ [StartOk])"
proof (induction evs arbitrary: s)
  case Nil
  then show ?case by (auto intro: exI [of _ 0])
next
  case (Cons x evs)
  from Cons.prems(1) obtain s1 where x: "exec x s = Some s1" and r: "run evs s1 = Some s'"
    by (auto split: option.splits)
  have p: "startPath (snd x)" "list_all (\<lambda>x. startPath (snd x)) evs"
    using Cons.prems(2) by simp_all
  note a = startPath_exec [OF x p(1)]
  note b = Cons.IH [OF r p(2)]
  from b obtain n where n: "engineCalls s' = engineCalls s1 @ replicate n StartThrew \<or>
        engineCalls s' = engineCalls s1 @ replicate n StartThrew @ [StartOk]"
    by blast
  show ?case
  proof (cases "isRecognitionActive s")
    case True
    with a b show ?thesis by (auto intro: exI [of _ 0])
  next
    case False
    with a consider
        (same) "engineCalls s1 = engineCalls s"
      | (threw) "engineCalls s1 = engineCalls s @ [StartThrew]"
      | (ok) "engineCalls s1 = engineCalls s @ [StartOk]" "isRecognitionActive s1"
      by blast
    then show ?thesis
    proof cases
      case same
      with n False show ?thesis by auto
    next
      case threw
      have "engineCalls s' = engineCalls s @ replicate (Suc n) StartThrew \<or>
        engineCalls s' = engineCalls s @ replicate (Suc n) StartThrew @ [StartOk]"
        using n threw by simp
      with False show ?thesis by blast
    next
      case ok
      with b have "engineCalls s' = engineCalls s @ replicate 0 StartThrew @ [StartOk]"
        by simp
      with False show ?thesis by blast
    qed
  qed
qed

text \<open>
  C8. While isRecognitionActive is true, restartRecognition changes nothing (it sets no
  timer), the callback of its timer changes nothing, and the start of addPCM16 is
  skipped. No call or callback of the class, in any state where the flag is true, calls
  the engine's start. In any interleaving of addPCM16 calls, restartRecognition calls
  and timer callbacks the engine calls made are starts that threw (the flag stays down
  after each) followed by at most one start that succeeded, after which the flag is up
  and no further start is made; none at all when the flag was up at the beginning.
\<close>

theorem restart_suppressed:
  "(isRecognitionActive s \<longrightarrow>
      restartRecognition s = s \<and> restartTimeout e s = s \<and> startRecognition e s = s) \<and>
   (exec x s = Some s' \<and> isRecognitionActive s \<longrightarrow>
      filter isStart (engineCalls s') = filter isStart (engineCalls s)) \<and>
   (run evs s = Some s'' \<and> list_all (\<lambda>x. startPath (snd x)) evs \<longrightarrow>
      (isRecognitionActive s \<longrightarrow> engineCalls s'' = engineCalls s \<and> isRecognitionActive s'') \<and>
      (\<exists>n. engineCalls s'' = engineCalls s @ replicate n StartThrew \<or>
           engineCalls s'' = engineCalls s @ replicate n StartThrew @ [StartOk]))"
proof (intro conjI impI)
  assume "isRecognitionActive s"
  then show "restartRecognition s = s" "restartTimeout e s = s" "startRecognition e s = s"
    by (simp_all add: restartRecognition_def restartTimeout_def startRecognition_def)
next
  assume "exec x s = Some s' \<and> isRecognitionActive s"
  then show "filter isStart (engineCalls s') = filter isStart (engineCalls s)"
    using active_exec by blast
next
  assume a: "run evs s = Some s'' \<and> list_all (\<lambda>x. startPath (snd x)) evs"
  then have r: "run evs s = Some s''" and l: "list_all (\<lambda>x. startPath (snd x)) evs"
    by simp_all
  note t = startPath_run [OF r l]
  show "\<exists>n. engineCalls s'' = engineCalls s @ replicate n StartThrew \<or>
           engineCalls s'' = engineCalls s @ replicate n StartThrew @ [StartOk]"
    using t by blast
  assume "isRecognitionActive s"
  then show "engineCalls s'' = engineCalls s" "isRecognitionActive s''"
    using t by simp_all
qed

theorem restart_suppressed_witness:
  "run [(atTime 0, AddPCM16 (replicate 2 0))] (newAudioStreamer 24000 True) = Some listening \<and>
   isRecognitionActive listening \<and>
   engineCalls listening = [StartOk] \<and>
   restartRecognition listening = listening \<and>
   restartTimeout (atTime 1) listening = listening \<and>
   exec (atTime 1, RestartRecognition) listening = Some listening \<and>
   list_all (\<lambda>x. startPath (snd x))
     [(atTime 1, RestartRecognition), (atTime 2, AddPCM16 (replicate 2 0)), (atTime 3, TimerFires 0)] \<and>
   (\<exists>s''. run [(atTime 1, RestartRecognition), (atTime 2, AddPCM16 (replicate 2 0)),
               (atTime 3, TimerFires 0)] listening = Some s'' \<and>
          engineCalls s'' = [StartOk] \<and> isRecognitionActive s'')"
proof -
  let ?evs = "[(atTime 1, RestartRecognition), (atTime 2, AddPCM16 (replicate 2 0)),
               (atTime 3, TimerFires 0)]"
  have a: "isRecognitionActive listening" "engineCalls listening = [StartOk]"
    by (simp_all add: listening_def)
  have l: "list_all (\<lambda>x. startPath (snd x)) ?evs" by simp
  obtain s'' where r: "run ?evs listening = Some s''"
    by (simp add: listening_def call_eval pass_eval)
  show ?thesis
    using restart_suppressed [of listening "atTime 1" "(atTime 1, RestartRecognition)" listening
        ?evs s''] a l r listening_reached
    by (simp add: exec_def)
qed

subsection \<open>C10: resume\<close>

lemma stopped_reached:
  "run [(atTime 0, Stop), (atTime (1 / 5), TimerFires 0)] (newAudioStreamer 24000 False) =
     Some stopped"
  by (simp add: call_eval stopped_def)

lemma resumed_reached: "resume (atTime 1) stopped = Some resumed"
  by (simp add: call_eval resumed_def stopped_def)

lemma resumed_session:
  "run [(atTime 1, AddPCM16 (replicate 15360 0)), (atTime (71 / 50), SourceEnds 0)] resumed =
     Some \<lparr>audioQueue = [], isPlaying = True, sampleRate = 24000,
      bufferSize = 7680, processingBuffer = [], scheduledTime = 71 / 50,
      gainNode = \<lparr>gainId = 1, automation = [SetValueAtTime 1 1]\<rparr>,
      isStreamComplete = False, initialBufferTime = 1 / 10,
      endOfQueueAudioSource = None, speechRecognizer = False,
      isRecognitionActive = False, processor = False,
      started = [\<lparr>sourceId = 0, buffer = replicate 7680 0, startTime = 11 / 10,
                  onended = True, toGain = 1, toProcessor = False, played = True\<rparr>],
      timers = [], engineCalls = [], completions = 1\<rparr>"
  by (simp add: resumed_def call_eval pass_eval)

lemma scheduleNextBuffer_isPlaying:
  "\<not> isStreamComplete s \<Longrightarrow> isPlaying (scheduleNextBuffer e s) = isPlaying s"
  using scheduleLoop_unchanged [of e s]
  by (simp add: scheduleNextBuffer_def finishPass_def)

lemma startPlayback_not_complete:
  "\<not> isStreamComplete s \<Longrightarrow> isPlaying (startPlayback e s)"
  by (simp add: startPlayback_def scheduleNextBuffer_isPlaying)

lemma addPCM16_not_complete:
  assumes "addPCM16 e chunk s = Some s'" and "\<not> isStreamComplete s"
  shows "\<not> isStreamComplete s' \<and> isPlaying s'"
proof -
  have "0 < bufferSize s" using assms(1) by (rule addPCM16_SomeD)
  from addPCM16_Some [OF this, of e chunk] assms show ?thesis
    by (auto simp: startPlayback_unchanged startRecognition_unchanged
        intro!: startPlayback_not_complete)
qed

lemma fireTimer_not_complete:
  assumes "fireTimer e k s = Some s'" and "\<not> isStreamComplete s"
  shows "\<not> isStreamComplete s' \<and> isPlaying s' = isPlaying s"
proof -
  from assms have s': "s' = runCallback e (action (timers s ! k))
                   (s\<lparr>timers := take k (timers s) @ drop (Suc k) (timers s)\<rparr>)"
    by (auto simp: fireTimer_def split: if_splits)
  show ?thesis
    unfolding s' using assms(2)
    by (cases "action (timers s ! k)")
       (simp_all add: runCallback_def scheduleNextBuffer_unchanged scheduleNextBuffer_isPlaying
          restartTimeout_def swapGainTimeout_def)
qed

lemma not_complete_exec:
  assumes "exec x s = Some s'" and "\<not> endsStream (snd x)" and "\<not> isStreamComplete s"
  shows "\<not> isStreamComplete s' \<and> (isPlaying s \<longrightarrow> isPlaying s')"
proof (cases "snd x")
  case (AddPCM16 chunk)
  then have "addPCM16 (fst x) chunk s = Some s'" using assms(1) by (simp add: exec_def)
  from addPCM16_not_complete [OF this assms(3)] show ?thesis by simp
next
  case Resume
  then show ?thesis using assms(1,3) by (auto simp: exec_def resume_def split: if_splits)
next
  case RestartRecognition
  then show ?thesis using assms(1,3)
    by (auto simp: exec_def restartRecognition_def split: if_splits)
next
  case (TimerFires k)
  then have "fireTimer (fst x) k s = Some s'" using assms(1) by (simp add: exec_def)
  from fireTimer_not_complete [OF this assms(3)] show ?thesis by simp
next
  case (SourceEnds k)
  then show ?thesis using assms(1,3)
    by (auto simp: exec_def sourceEnds_def endOfQueueHandler_def Let_def
        split: option.splits if_splits)
next
  case (RecognizerError noSpeech)
  then show ?thesis using assms(1,3)
    by (auto simp: exec_def recognizerOnerror_def restartRecognition_def Let_def split: if_splits)
next
  case RecognizerEnd
  then show ?thesis using assms(1,3)
    by (auto simp: exec_def recognizerOnend_def restartRecognition_def Let_def split: if_splits)
qed (use assms(2) in simp_all)

lemma not_complete_run:
  "run evs s = Some s' \<Longrightarrow> list_all (\<lambda>x. \<not> endsStream (snd x)) evs \<Longrightarrow>
   \<not> isStreamComplete s \<Longrightarrow>
   \<not> isStreamComplete s' \<and> (isPlaying s \<longrightarrow> isPlaying s')"
proof (induction evs arbitrary: s)
  case Nil
  then show ?case by simp
next
  case (Cons x evs)
  from Cons.prems(1) obtain s1 where x: "exec x s = Some s1" and r: "run evs s1 = Some s'"
    by (auto split: option.splits)
  have p: "\<not> endsStream (snd x)" "list_all (\<lambda>x. \<not> endsStream (snd x)) evs"
    using Cons.prems(2) by simp_all
  note a = not_complete_exec [OF x p(1) Cons.prems(3)]
  from a have "\<not> isStreamComplete s1" by simp
  note b = Cons.IH [OF r p(2) this]
  from a b show ?case by simp
qed

text \<open>
  C10 as stated fails in its last part. On the streamer of the constructor,
  \<^verbatim>\<open>complete\<close> at clock 0 calls \<^verbatim>\<open>onComplete\<close> at once; after \<^verbatim>\<open>resume\<close> at clock 1
  a chunk of 15360 zero bytes is one frame, started for 1.1 to 1.42, and when it ends its
  end-of-queue handler calls \<^verbatim>\<open>onComplete\<close> again, although \<^verbatim>\<open>complete\<close> has not been
  called anew and isStreamComplete is false. The same after \<^verbatim>\<open>stop\<close> (whose timer
  replaces the gain node at clock 0.2) and \<^verbatim>\<open>resume\<close>: the callback is called with no
  call of \<^verbatim>\<open>complete\<close> at all.
\<close>

theorem resume_completion_counterexample:
  "run [(atTime 0, Complete), (atTime 1, Resume)] (newAudioStreamer 24000 False) =
     Some \<lparr>audioQueue = [], isPlaying = False, sampleRate = 24000,
      bufferSize = 7680, processingBuffer = [], scheduledTime = 11 / 10,
      gainNode = \<lparr>gainId = 0, automation = [SetValueAtTime 1 1]\<rparr>,
      isStreamComplete = False, initialBufferTime = 1 / 10,
      endOfQueueAudioSource = None, speechRecognizer = False,
      isRecognitionActive = False, processor = False,
      started = [], timers = [], engineCalls = [], completions = 1\<rparr> \<and>
   run [(atTime 0, Complete), (atTime 1, Resume),
        (atTime 1, AddPCM16 (replicate 15360 0)), (atTime (71 / 50), SourceEnds 0)]
     (newAudioStreamer 24000 False) =
     Some \<lparr>audioQueue = [], isPlaying = True, sampleRate = 24000,
      bufferSize = 7680, processingBuffer = [], scheduledTime = 71 / 50,
      gainNode = \<lparr>gainId = 0, automation = [SetValueAtTime 1 1]\<rparr>,
      isStreamComplete = False, initialBufferTime = 1 / 10,
      endOfQueueAudioSource = None, speechRecognizer = False,
      isRecognitionActive = False, processor = False,
      started = [\<lparr>sourceId = 0, buffer = replicate 7680 0, startTime = 11 / 10,
                  onended = True, toGain = 0, toProcessor = False, played = True\<rparr>],
      timers = [], engineCalls = [], completions = 2\<rparr> \<and>
   run [(atTime 0, Stop), (atTime (1 / 5), TimerFires 0), (atTime 1, Resume),
        (atTime 1, AddPCM16 (replicate 15360 0)), (atTime (71 / 50), SourceEnds 0)]
     (newAudioStreamer 24000 False) =
     Some \<lparr>audioQueue = [], isPlaying = True, sampleRate = 24000,
      bufferSize = 7680, processingBuffer = [], scheduledTime = 71 / 50,
      gainNode = \<lparr>gainId = 1, automation = [SetValueAtTime 1 1]\<rparr>,
      isStreamComplete = False, initialBufferTime = 1 / 10,
      endOfQueueAudioSource = None, speechRecognizer = False,
      isRecognitionActive = False, processor = False,
      started = [\<lparr>sourceId = 0, buffer = replicate 7680 0, startTime = 11 / 10,
                  onended = True, toGain = 1, toProcessor = False, played = True\<rparr>],
      timers = [], engineCalls = [], completions = 1\<rparr>"
  by (simp add: call_eval pass_eval)

text \<open>
  C10 (amended). \<^verbatim>\<open>resume\<close> gets past its await unless the context is suspended and
  \<^verbatim>\<open>context.resume()\<close> never fulfils. Whenever it does, it sets isStreamComplete to
  false, whatever it was, sets scheduledTime to \<open>currentTime + initialBufferTime\<close> and
  schedules the gain value 1 at currentTime on the current gain node; the queue, the
  accumulation buffer, isPlaying and the tracked source stay as they are. So
  \<^verbatim>\<open>resume\<close> after \<^verbatim>\<open>complete\<close> or \<^verbatim>\<open>stop\<close> un-completes the stream: until
  \<^verbatim>\<open>complete\<close> or \<^verbatim>\<open>stop\<close> is called again, isStreamComplete stays false and no
  scheduling pass ends the session (a playing session stays playing). The calls of
  \<^verbatim>\<open>onComplete\<close> do not depend on the flag: see C1.
\<close>

theorem resume_uncompletes:
  "(resume e s = Some s' \<longrightarrow>
      \<not> isStreamComplete s' \<and>
      scheduledTime s' = currentTime e + initialBufferTime s \<and>
      automation (gainNode s') = automation (gainNode s) @ [SetValueAtTime 1 (currentTime e)] \<and>
      gainId (gainNode s') = gainId (gainNode s) \<and>
      audioQueue s' = audioQueue s \<and> processingBuffer s' = processingBuffer s \<and>
      isPlaying s' = isPlaying s \<and> completions s' = completions s \<and>
      endOfQueueAudioSource s' = endOfQueueAudioSource s \<and> started s' = started s \<and>
      (run evs s' = Some s'' \<and> list_all (\<lambda>x. \<not> endsStream (snd x)) evs \<longrightarrow>
         \<not> isStreamComplete s'' \<and> (isPlaying s' \<longrightarrow> isPlaying s''))) \<and>
   ((resume e s = None) = (contextSuspended e \<and> \<not> resumeFulfils e))"
proof (intro conjI impI)
  assume r: "resume e s = Some s'"
  then have s': "s' = s\<lparr>isStreamComplete := False,
                   scheduledTime := currentTime e + initialBufferTime s,
                   gainNode := (gainNode s)
                     \<lparr>automation := automation (gainNode s) @
                        [SetValueAtTime 1 (currentTime e)]\<rparr>\<rparr>"
    by (auto simp: resume_def split: if_splits)
  show c: "\<not> isStreamComplete s'"
    and "scheduledTime s' = currentTime e + initialBufferTime s"
    and "automation (gainNode s') = automation (gainNode s) @ [SetValueAtTime 1 (currentTime e)]"
    and "gainId (gainNode s') = gainId (gainNode s)"
    and "audioQueue s' = audioQueue s" and "processingBuffer s' = processingBuffer s"
    and "isPlaying s' = isPlaying s" and "completions s' = completions s"
    and "endOfQueueAudioSource s' = endOfQueueAudioSource s" and "started s' = started s"
    by (simp_all add: s')
  assume "run evs s' = Some s'' \<and> list_all (\<lambda>x. \<not> endsStream (snd x)) evs"
  then have "run evs s' = Some s''" "list_all (\<lambda>x. \<not> endsStream (snd x)) evs"
    by simp_all
  note n = not_complete_run [OF this c]
  show "\<not> isStreamComplete s''" using n by simp
  assume "isPlaying s'"
  then show "isPlaying s''" using n by simp
next
  show "(resume e s = None) = (contextSuspended e \<and> \<not> resumeFulfils e)"
    by (simp add: resume_def)
qed

theorem resume_uncompletes_witness:
  "isStreamComplete stopped \<and>
   resume (atTime 1) stopped = Some resumed \<and>
   \<not> isStreamComplete resumed \<and>
   scheduledTime resumed = 11 / 10 \<and>
   automation (gainNode resumed) = [SetValueAtTime 1 1] \<and>
   list_all (\<lambda>x. \<not> endsStream (snd x))
     [(atTime 1, AddPCM16 (replicate 15360 0)), (atTime (71 / 50), SourceEnds 0)] \<and>
   (\<exists>s''. run [(atTime 1, AddPCM16 (replicate 15360 0)), (atTime (71 / 50), SourceEnds 0)]
            resumed = Some s'' \<and>
          \<not> isStreamComplete s'' \<and> isPlaying s'') \<and>
   resume (atTime 1 \<lparr>contextSuspended := True, resumeFulfils := False\<rparr>) resumed = None"
proof -
  let ?evs = "[(atTime 1, AddPCM16 (replicate 15360 0)), (atTime (71 / 50), SourceEnds 0)]"
  let ?stuck = "atTime 1 \<lparr>contextSuspended := True, resumeFulfils := False\<rparr>"
  have a: "isStreamComplete stopped"
    by (simp add: stopped_def)
  have l: "list_all (\<lambda>x. \<not> endsStream (snd x)) ?evs" by simp
  obtain s'' where r: "run ?evs resumed = Some s''" "isPlaying s''"
    using resumed_session by simp
  have i: "initialBufferTime stopped = 1 / 10" "automation (gainNode stopped) = []"
    "currentTime (atTime 1) = 1"
    "contextSuspended ?stuck" "\<not> resumeFulfils ?stuck"
    by (simp_all add: stopped_def atTime_def)
  show ?thesis
    using resume_uncompletes [of "atTime 1" stopped resumed ?evs s'']
      resume_uncompletes [of ?stuck resumed]
      a l r i resumed_reached
    by simp
qed

subsection \<open>The frames given to createBuffer\<close>

text \<open>
  \<^verbatim>\<open>createBuffer\<close> raises for a buffer of length 0. The class never makes one: in every
  session of a streamer built by the constructor each queued frame and each frame handed
  to a source has at least one sample, so createAudioBuffer is modelled without an error
  result.
\<close>

lemma no_empty_scheduleNextBuffer:
  assumes "[] \<notin> set (dequeued s)" and "[] \<notin> set (audioQueue s)"
  shows "[] \<notin> set (dequeued (scheduleNextBuffer e s)) \<and>
         [] \<notin> set (audioQueue (scheduleNextBuffer e s))"
proof -
  obtain k where k: "audioQueue (scheduleNextBuffer e s) = drop k (audioQueue s)"
     "dequeued (scheduleNextBuffer e s) = dequeued s @ take k (audioQueue s)"
    using scheduleNextBuffer_queue by blast
  have "set (drop k (audioQueue s)) \<subseteq> set (audioQueue s)"
       "set (take k (audioQueue s)) \<subseteq> set (audioQueue s)"
    by (rule set_drop_subset, rule set_take_subset)
  with assms show ?thesis unfolding k by auto
qed

lemma no_empty_startPlayback:
  assumes "[] \<notin> set (dequeued s)" and "[] \<notin> set (audioQueue s)"
  shows "[] \<notin> set (dequeued (startPlayback e s)) \<and> [] \<notin> set (audioQueue (startPlayback e s))"
proof (cases "isPlaying s")
  case True
  with assms show ?thesis by (simp add: startPlayback_playing)
next
  case False
  let ?s = "s\<lparr>isPlaying := True, scheduledTime := currentTime e + initialBufferTime s\<rparr>"
  have "[] \<notin> set (dequeued ?s)" "[] \<notin> set (audioQueue ?s)"
    using assms by (simp_all add: dequeued_def)
  from no_empty_scheduleNextBuffer [OF this, of e] False show ?thesis
    by (simp add: startPlayback_def)
qed

lemma no_empty_completeStream:
  assumes "[] \<notin> set (dequeued s)" and "[] \<notin> set (audioQueue s)"
  shows "[] \<notin> set (dequeued (completeStream e s)) \<and>
         [] \<notin> set (audioQueue (completeStream e s))"
proof (cases "processingBuffer s = []")
  case True
  with assms show ?thesis by (simp add: completeStream_def dequeued_def)
next
  case False
  let ?s2 = "s\<lparr>isStreamComplete := True, audioQueue := audioQueue s @ [processingBuffer s],
               processingBuffer := []\<rparr>"
  have c: "completeStream e s = (if isPlaying s then scheduleNextBuffer e ?s2 else ?s2)"
    using False by (simp add: completeStream_def Let_def)
  have p: "[] \<notin> set (dequeued ?s2)" "[] \<notin> set (audioQueue ?s2)"
    using assms False by (auto simp: dequeued_def)
  from no_empty_scheduleNextBuffer [OF p, of e] p show ?thesis
    by (simp add: c)
qed

lemma no_empty_fireTimer:
  assumes "fireTimer e k s = Some s'"
    and "[] \<notin> set (dequeued s)" and "[] \<notin> set (audioQueue s)"
  shows "[] \<notin> set (dequeued s') \<and> [] \<notin> set (audioQueue s')"
proof -
  let ?s = "s\<lparr>timers := take k (timers s) @ drop (Suc k) (timers s)\<rparr>"
  from assms(1) have s': "s' = runCallback e (action (timers s ! k)) ?s"
    by (auto simp: fireTimer_def split: if_splits)
  have p: "[] \<notin> set (dequeued ?s)" "[] \<notin> set (audioQueue ?s)"
    using assms(2,3) by (simp_all add: dequeued_def)
  show ?thesis
  proof (cases "action (timers s ! k)")
    case CbScheduleNextBuffer
    with no_empty_scheduleNextBuffer [OF p, of e] show ?thesis
      by (simp add: s' runCallback_def)
  next
    case CbRestartRecognition
    with p show ?thesis by (simp add: s' runCallback_def restartTimeout_def dequeued_def)
  next
    case CbSwapGainNode
    with p show ?thesis by (simp add: s' runCallback_def swapGainTimeout_def dequeued_def)
  qed
qed

lemma no_empty_exec:
  assumes "exec x s = Some s'"
    and "[] \<notin> set (dequeued s)" and "[] \<notin> set (audioQueue s)"
  shows "[] \<notin> set (dequeued s') \<and> [] \<notin> set (audioQueue s')"
proof (cases "snd x")
  case (AddPCM16 chunk)
  then have a: "addPCM16 (fst x) chunk s = Some s'" using assms(1) by (simp add: exec_def)
  then have B: "0 < bufferSize s" by (rule addPCM16_SomeD)
  let ?buf = "processingBuffer s @ samplesOf chunk"
  let ?s1 = "(startRecognition (fst x) s)
          \<lparr>audioQueue := audioQueue s @ spec_frames (bufferSize s) ?buf,
           processingBuffer := drop (bufferSize s * (length ?buf div bufferSize s)) ?buf\<rparr>"
  have s': "s' = startPlayback (fst x) ?s1"
    using a addPCM16_Some [OF B, of "fst x" chunk] by simp
  have "[] \<notin> set (spec_frames (bufferSize s) ?buf)"
    using spec_frames_full [of "[]" "bufferSize s" ?buf] B by auto
  then have "[] \<notin> set (dequeued ?s1)" "[] \<notin> set (audioQueue ?s1)"
    using assms(2,3) by (simp_all add: dequeued_def startRecognition_unchanged)
  from no_empty_startPlayback [OF this, of "fst x"] show ?thesis unfolding s' .
next
  case Complete
  then show ?thesis using assms no_empty_completeStream [of s "fst x"]
    by (auto simp: exec_def)
next
  case Stop
  then have s': "s' = stop (fst x) s" using assms(1) by (simp add: exec_def)
  have "audioQueue (stop (fst x) s) = []" "dequeued (stop (fst x) s) = dequeued s"
    by (simp_all add: stop_def Let_def dequeued_def)
  then show ?thesis using assms(2) by (simp add: s')
next
  case Resume
  then have "audioQueue s' = audioQueue s" "dequeued s' = dequeued s"
    using assms(1) by (auto simp: exec_def resume_def dequeued_def split: if_splits)
  then show ?thesis using assms(2,3) by simp
next
  case RestartRecognition
  then have "audioQueue s' = audioQueue s" "dequeued s' = dequeued s"
    using assms(1) by (auto simp: exec_def restartRecognition_def dequeued_def split: if_splits)
  then show ?thesis using assms(2,3) by simp
next
  case (TimerFires k)
  then have "fireTimer (fst x) k s = Some s'" using assms(1) by (simp add: exec_def)
  from no_empty_fireTimer [OF this assms(2,3)] show ?thesis .
next
  case (SourceEnds k)
  then have "sourceEnds (fst x) k s = Some s'" using assms(1) by (simp add: exec_def)
  from sourceEnds_frames [OF this] show ?thesis using assms(2,3) by simp
next
  case (RecognizerError noSpeech)
  then have "audioQueue s' = audioQueue s" "dequeued s' = dequeued s"
    using assms(1)
    by (auto simp: exec_def recognizerOnerror_def restartRecognition_def dequeued_def Let_def
        split: if_splits)
  then show ?thesis using assms(2,3) by simp
next
  case RecognizerEnd
  then have "audioQueue s' = audioQueue s" "dequeued s' = dequeued s"
    using assms(1)
    by (auto simp: exec_def recognizerOnend_def restartRecognition_def dequeued_def Let_def
        split: if_splits)
  then show ?thesis using assms(2,3) by simp
qed

lemma no_empty_frame:
  "run evs (newAudioStreamer rate recognizer) = Some s \<Longrightarrow>
   [] \<notin> set (dequeued s) \<and> [] \<notin> set (audioQueue s)"
proof -
  have gen: "run evs s0 = Some s \<Longrightarrow> [] \<notin> set (dequeued s0) \<Longrightarrow> [] \<notin> set (audioQueue s0) \<Longrightarrow>
     [] \<notin> set (dequeued s) \<and> [] \<notin> set (audioQueue s)" for s0
  proof (induction evs arbitrary: s0)
    case Nil
    then show ?case by simp
  next
    case (Cons x evs)
    from Cons.prems(1) obtain s1 where x: "exec x s0 = Some s1" and r: "run evs s1 = Some s"
      by (auto split: option.splits)
    from no_empty_exec [OF x Cons.prems(2,3)] Cons.IH [OF r] show ?case by simp
  qed
  assume "run evs (newAudioStreamer rate recognizer) = Some s"
  from gen [OF this] show ?thesis
    by (simp add: newAudioStreamer_def dequeued_def)
qed

end
